theory Spec2Isabelle
  imports Main "HOL-Library.Word"
begin

section \<open>Shared data\<close>

text \<open>
  A JavaScript string is a sequence of UTF-16 code units; the regular expression of
  \<open>needsEmojiFont\<close> (no \<open>u\<close> flag) tests single code units, so the source text and
  every message derived from it are lists of 16-bit words. A \<open>Uint8Array\<close> is a list
  of bytes. Protocol tags, correlation ids and font paths are plain ASCII and are kept
  as \<open>string\<close>.
\<close>

type_synonym jsstring = "16 word list"
type_synonym bytes = "8 word list"

text \<open>
  A thrown value or promise rejection. \<open>ErrorObject m\<close> is an \<open>Error\<close> whose
  \<open>message\<close> is \<open>m\<close>; \<open>NonError s\<close> is any other value, \<open>s\<close> being what
  \<open>String(value)\<close> returns for it.
\<close>

datatype thrown = ErrorObject jsstring | NonError jsstring

text \<open>\<open>error instanceof Error ? error.message : String(error)\<close>\<close>

fun errorText :: "thrown \<Rightarrow> jsstring" where
  "errorText (ErrorObject m) = m"
| "errorText (NonError s) = s"

section \<open>The compile coordinator: \<open>TypstCompilerService.ts\<close>\<close>

datatype CompileStatus = Idle | Compiling | Done | Error

text \<open>
  An object URL handed out by \<open>URL.createObjectURL\<close>; the number makes it unique. It
  is a non-empty string, so \<open>if (this.currentPdfUrl)\<close> tests for \<open>null\<close>.
\<close>

datatype url = BlobUrl nat

record CompileResult =
  success :: bool
  pdf :: "bytes option"
  pdfUrl :: "url option"
  error :: "jsstring option"
  status :: CompileStatus

text \<open>
  A listener is an object: \<open>lid\<close> is its identity (what \<open>indexOf\<close> compares), and each
  flag says whether the optional callback is present (\<open>listener.onError?.(...)\<close> calls
  it only then).
\<close>

datatype CompileListener =
  CompileListener (lid: nat) (onStatusChange: bool) (onSuccess: bool) (onError: bool)

text \<open>
  Everything the service does to the outside is appended to a log, in program order:
  the callbacks it invokes (each with the listener that received it), its calls to
  \<open>URL\<close>, and its calls to the worker client. Callbacks are taken to return normally
  and not to call back into the service.
\<close>

datatype effect =
    StatusChanged CompileListener CompileStatus
  | Succeeded CompileListener bytes url
  | Errored CompileListener jsstring
  | RevokeObjectURL url
  | CreateObjectURL bytes url
  | ClientCompilePdf jsstring
  | ClientDispose

text \<open>
  The fields of a \<open>TypstCompilerService\<close> (\<open>compileSeq\<close>, \<open>currentPdfUrl\<close>,
  \<open>listeners\<close>), the browser's registry of object URLs that were created and not yet
  revoked (\<open>liveUrls\<close>, with \<open>nextUrl\<close> the next unused one), and the log. The counter
  is a JavaScript number holding an integer that \<open>++\<close> increments exactly for the
  first \<open>2 ^ 53\<close> calls; it is a natural number here.
\<close>

record service =
  compileSeq :: nat
  currentPdfUrl :: "url option"
  listeners :: "CompileListener list"
  liveUrls :: "url list"
  nextUrl :: nat
  effects :: "effect list"

definition initial :: service where
  "initial = \<lparr> compileSeq = 0, currentPdfUrl = None, listeners = [],
     liveUrls = [], nextUrl = 0, effects = [] \<rparr>"

definition emit :: "effect list \<Rightarrow> service \<Rightarrow> service" where
  "emit es s = s\<lparr> effects := effects s @ es \<rparr>"

subsection \<open>Listeners\<close>

text \<open>\<open>Array.prototype.indexOf\<close>: the first position holding the element, or \<open>-1\<close>.\<close>

fun indexOf :: "'a list \<Rightarrow> 'a \<Rightarrow> int" where
  "indexOf [] x = -1"
| "indexOf (y # ys) x =
     (if y = x then 0 else (let i = indexOf ys x in if i = -1 then -1 else i + 1))"

text \<open>\<open>xs.splice(index, 1)\<close> for an index within the array.\<close>

definition splice1 :: "int \<Rightarrow> 'a list \<Rightarrow> 'a list" where
  "splice1 i xs = take (nat i) xs @ drop (nat i + 1) xs"

definition addListener :: "CompileListener \<Rightarrow> service \<Rightarrow> service" where
  "addListener listener s = s\<lparr> listeners := listeners s @ [listener] \<rparr>"

text \<open>The function \<open>addListener\<close> returns, for the listener it closed over.\<close>

definition unsubscribe :: "CompileListener \<Rightarrow> service \<Rightarrow> service" where
  "unsubscribe listener s =
     (let index = indexOf (listeners s) listener
      in if index > -1 then s\<lparr> listeners := splice1 index (listeners s) \<rparr> else s)"

definition notifyStatusChange :: "CompileStatus \<Rightarrow> service \<Rightarrow> service" where
  "notifyStatusChange st s =
     emit (map (\<lambda>l. StatusChanged l st) (filter onStatusChange (listeners s))) s"

definition notifySuccess :: "bytes \<Rightarrow> url \<Rightarrow> service \<Rightarrow> service" where
  "notifySuccess p u s =
     emit (map (\<lambda>l. Succeeded l p u) (filter onSuccess (listeners s))) s"

definition notifyError :: "jsstring \<Rightarrow> service \<Rightarrow> service" where
  "notifyError msg s =
     emit (map (\<lambda>l. Errored l msg) (filter onError (listeners s))) s"

subsection \<open>Object URLs\<close>

definition revokeObjectURL :: "url \<Rightarrow> service \<Rightarrow> service" where
  "revokeObjectURL u s =
     emit [RevokeObjectURL u] (s\<lparr> liveUrls := removeAll u (liveUrls s) \<rparr>)"

definition createObjectURL :: "bytes \<Rightarrow> service \<Rightarrow> url \<times> service" where
  "createObjectURL blob s =
     (let u = BlobUrl (nextUrl s)
      in (u, emit [CreateObjectURL blob u]
               (s\<lparr> liveUrls := liveUrls s @ [u], nextUrl := nextUrl s + 1 \<rparr>)))"

subsection \<open>\<open>compile\<close>\<close>

text \<open>
  \<open>compile\<close> is an async function with one \<open>await\<close>. \<open>compileBegin\<close> is the part that
  runs synchronously inside the call, up to the request handed to the worker client;
  it returns the sequence number the call captured. \<open>compileResume\<close> is the part that
  runs when the client's promise settles: \<open>Inr p\<close> when it fulfils with a result whose
  \<open>pdf\<close> is \<open>p\<close>, \<open>Inl e\<close> when it rejects with \<open>e\<close>. What the client answers, and when,
  is a parameter of the model: the client is not part of these definitions.
\<close>

definition stale :: CompileResult where
  "stale = \<lparr> success = False, pdf = None, pdfUrl = None, error = None, status = Idle \<rparr>"

definition compileBegin :: "jsstring \<Rightarrow> service \<Rightarrow> nat \<times> service" where
  "compileBegin code s =
     (let seq = compileSeq s + 1;
          s1 = s\<lparr> compileSeq := seq \<rparr>;
          s2 = notifyStatusChange Compiling s1
      in (seq, emit [ClientCompilePdf code] s2))"

definition compileResume :: "nat \<Rightarrow> thrown + bytes \<Rightarrow> service \<Rightarrow> CompileResult \<times> service" where
  "compileResume seq reply s =
     (case reply of
        Inr p \<Rightarrow>
          if seq \<noteq> compileSeq s then (stale, s)
          else
            (let s1 = (case currentPdfUrl s of
                         Some old \<Rightarrow> revokeObjectURL old s
                       | None \<Rightarrow> s);
                 (u, s2) = createObjectURL p s1;
                 s3 = s2\<lparr> currentPdfUrl := Some u \<rparr>;
                 s4 = notifySuccess p u s3;
                 s5 = notifyStatusChange Done s4
             in (\<lparr> success = True, pdf = Some p, pdfUrl = Some u, error = None,
                    status = Done \<rparr>, s5))
      | Inl e \<Rightarrow>
          if seq \<noteq> compileSeq s then (stale, s)
          else
            (let errorMsg = errorText e;
                 s1 = notifyError errorMsg s;
                 s2 = notifyStatusChange Error s1
             in (\<lparr> success = False, pdf = None, pdfUrl = None, error = Some errorMsg,
                    status = Error \<rparr>, s2)))"

definition getCurrentPdfUrl :: "service \<Rightarrow> url option" where
  "getCurrentPdfUrl s = currentPdfUrl s"

definition dispose :: "service \<Rightarrow> service" where
  "dispose s =
     (let s1 = emit [ClientDispose] s;
          s2 = (case currentPdfUrl s1 of
                  Some u \<Rightarrow> (revokeObjectURL u s1)\<lparr> currentPdfUrl := None \<rparr>
                | None \<Rightarrow> s1)
      in s2\<lparr> listeners := [] \<rparr>)"

subsection \<open>Executions of the coordinator\<close>

text \<open>
  What can happen to a service, one event at a time: a call of \<open>compile\<close> (its
  synchronous part), the settling of the client promise awaited by the call that
  captured a given sequence number, \<open>dispose\<close>, a registration, and a call of an
  unsubscribe function. Any interleaving is a list of events.
\<close>

datatype event =
    Compile jsstring
  | Reply nat "thrown + bytes"
  | Dispose
  | AddListener CompileListener
  | Unsubscribe CompileListener

fun step :: "service \<Rightarrow> event \<Rightarrow> service" where
  "step s (Compile code) = snd (compileBegin code s)"
| "step s (Reply seq r) = snd (compileResume seq r s)"
| "step s Dispose = dispose s"
| "step s (AddListener l) = addListener l s"
| "step s (Unsubscribe l) = unsubscribe l s"

definition run :: "event list \<Rightarrow> service \<Rightarrow> service" where
  "run evs s = foldl step s evs"

fun isCompile :: "event \<Rightarrow> bool" where
  "isCompile (Compile _) = True"
| "isCompile _ = False"

text \<open>The listener an effect is a callback to, if it is one.\<close>

fun receiver :: "effect \<Rightarrow> CompileListener option" where
  "receiver (StatusChanged l _) = Some l"
| "receiver (Succeeded l _ _) = Some l"
| "receiver (Errored l _) = Some l"
| "receiver _ = None"

definition delivered :: "CompileListener \<Rightarrow> effect list \<Rightarrow> effect list" where
  "delivered l es = filter (\<lambda>e. receiver e = Some l) es"

text \<open>
  The object URLs live after a stretch of the log, starting from the ones in \<open>live\<close>,
  and whether at most one was live at every point of it.
\<close>

fun applyUrl :: "effect \<Rightarrow> url list \<Rightarrow> url list" where
  "applyUrl (CreateObjectURL _ u) live = live @ [u]"
| "applyUrl (RevokeObjectURL u) live = removeAll u live"
| "applyUrl _ live = live"

fun replay :: "url list \<Rightarrow> effect list \<Rightarrow> url list" where
  "replay live [] = live"
| "replay live (e # es) = replay (applyUrl e live) es"

fun atMostOneLive :: "url list \<Rightarrow> effect list \<Rightarrow> bool" where
  "atMostOneLive live [] = (length live \<le> 1)"
| "atMostOneLive live (e # es) = (length live \<le> 1 \<and> atMostOneLive (applyUrl e live) es)"

text \<open>
  The handle invariant: at most one object URL was live at every point of the log, the
  log accounts for the registry, and the registry holds \<open>currentPdfUrl\<close> and nothing
  else.
\<close>

definition handleInv :: "service \<Rightarrow> bool" where
  "handleInv s \<longleftrightarrow>
     atMostOneLive [] (effects s)
     \<and> replay [] (effects s) = liveUrls s
     \<and> liveUrls s = (case currentPdfUrl s of None \<Rightarrow> [] | Some u \<Rightarrow> [u])"

section \<open>The coalescer: \<open>debounce\<close> in \<open>helpers.ts\<close>\<close>

text \<open>
  The closure state of one debounced function (\<open>timeoutId\<close>, and \<open>delay\<close>, which is
  fixed when it is created), the window's timer table as far as this function armed it
  (identifier, due time and the arguments the timer's callback closed over), the clock,
  and the calls of the underlying function so far, each with its arguments. Time is in
  whole milliseconds and a delay is a natural number, as \<open>setTimeout\<close> rounds it. A
  timer runs once the clock has reached its due time, never earlier.
\<close>

record 'a debounce =
  timeoutId :: "nat option"
  delay :: nat
  timers :: "(nat \<times> nat \<times> 'a) list"
  nextTimer :: nat
  clock :: nat
  invoked :: "'a list"

text \<open>\<open>debounce(func, delay)\<close>: nothing is armed, nothing was called.\<close>

definition debounce :: "nat \<Rightarrow> 'a debounce" where
  "debounce d = \<lparr> timeoutId = None, delay = d, timers = [], nextTimer = 1, clock = 0,
     invoked = [] \<rparr>"

definition setTimeout :: "'a \<Rightarrow> nat \<Rightarrow> 'a debounce \<Rightarrow> nat \<times> 'a debounce" where
  "setTimeout args d s =
     (nextTimer s,
      s\<lparr> timers := timers s @ [(nextTimer s, clock s + d, args)],
         nextTimer := nextTimer s + 1 \<rparr>)"

definition clearTimeout :: "nat \<Rightarrow> 'a debounce \<Rightarrow> 'a debounce" where
  "clearTimeout i s = s\<lparr> timers := filter (\<lambda>(j, due, args). j \<noteq> i) (timers s) \<rparr>"

text \<open>The debounced function, called with \<open>args\<close>.\<close>

definition debounced :: "'a \<Rightarrow> 'a debounce \<Rightarrow> 'a debounce" where
  "debounced args s =
     (let s1 = (case timeoutId s of Some i \<Rightarrow> clearTimeout i s | None \<Rightarrow> s);
          (i, s2) = setTimeout args (delay s1) s1
      in s2\<lparr> timeoutId := Some i \<rparr>)"

definition cancel :: "'a debounce \<Rightarrow> 'a debounce" where
  "cancel s =
     (case timeoutId s of
        Some i \<Rightarrow> (clearTimeout i s)\<lparr> timeoutId := None \<rparr>
      | None \<Rightarrow> s)"

text \<open>The timer's callback: \<open>func(...args); timeoutId = null\<close>.\<close>

definition timerCallback :: "'a \<Rightarrow> 'a debounce \<Rightarrow> 'a debounce" where
  "timerCallback args s = s\<lparr> invoked := invoked s @ [args], timeoutId := None \<rparr>"

text \<open>
  \<open>d\<close> milliseconds pass: every timer that is due by then leaves the table and its
  callback runs, in table order (all timers of the table have the same delay, so this
  is the order of their due times).
\<close>

definition elapse :: "nat \<Rightarrow> 'a debounce \<Rightarrow> 'a debounce" where
  "elapse d s =
     (let t = clock s + d;
          ready = filter (\<lambda>(i, due, args). due \<le> t) (timers s);
          waiting = filter (\<lambda>(i, due, args). \<not> due \<le> t) (timers s)
      in foldl (\<lambda>s' (i, due, args). timerCallback args s')
           (s\<lparr> clock := t, timers := waiting \<rparr>) ready)"

text \<open>
  A series of calls: each entry is the time that passed since the previous event and
  the arguments of the call made then.
\<close>

definition burst :: "(nat \<times> 'a) list \<Rightarrow> 'a debounce \<Rightarrow> 'a debounce" where
  "burst cs s = foldl (\<lambda>s' (gap, args). debounced args (elapse gap s')) s cs"

text \<open>
  One timer is armed, for the call with arguments \<open>args\<close> made just now, and the
  underlying function has not been called.
\<close>

definition armed :: "nat \<Rightarrow> 'a \<Rightarrow> 'a debounce \<Rightarrow> bool" where
  "armed d args s \<longleftrightarrow>
     invoked s = [] \<and> delay s = d
     \<and> (case timeoutId s of
          None \<Rightarrow> False
        | Some i \<Rightarrow> timers s = [(i, clock s + d, args)])"

section \<open>The render worker: \<open>typst.worker.ts\<close>\<close>

subsection \<open>Messages\<close>

text \<open>
  \<open>CompileRequest\<close> and \<open>CompileResponse\<close>. The fields \<open>type\<close> and \<open>id\<close> are
  \<open>msgType\<close> and \<open>msgId\<close> here. A response always has the type
  \<open>'compile-result'\<close>; \<open>pdf\<close> is present when \<open>ok\<close> is true and \<open>error\<close> when it is
  false.
\<close>

record CompileRequest =
  msgType :: string
  msgId :: string
  mainTypst :: jsstring
  images :: "(jsstring \<times> bytes) list option"

record CompileResponse =
  respId :: string
  ok :: bool
  respPdf :: "bytes option"
  respError :: "jsstring option"
  diagnostics :: "jsstring list"

text \<open>What \<open>compiler.compile\<close> resolves with: \<open>result\<close> and \<open>diagnostics\<close>, both optional.\<close>

record RenderResult =
  result :: "bytes option"
  renderDiagnostics :: "jsstring list option"

subsection \<open>Configuration\<close>

definition CORE_FONTS :: "string list" where
  "CORE_FONTS = [''/fonts/IBMPlexSans-Regular.ttf'', ''/fonts/IBMPlexSans-Bold.ttf'',
     ''/fonts/NewCMMath-Regular.otf'', ''/fonts/NewCMMath-Book.otf'']"

definition EMOJI_FONTS :: "string list" where
  "EMOJI_FONTS = [''/fonts/NotoColorEmoji.ttf'']"

subsection \<open>State\<close>

text \<open>A compiler object is told apart by the fonts it was created with.\<close>

datatype TypstCompiler = TypstCompiler (compilerFonts: "string list")

text \<open>
  A promise for a compiler: the object being initialised and whether the promise is
  still pending, fulfilled with that object, or rejected.
\<close>

datatype settled = Pending | Fulfilled | Rejected thrown

datatype promise = Promise (promised: TypstCompiler) (outcome: settled)

text \<open>
  Where the unit that is executing is suspended: at the \<open>await\<close> of the construction
  inside \<open>upgradeCompilerWithEmoji\<close>, at \<open>await getCompiler()\<close> with the promise
  pending, or at \<open>await compiler.compile(...)\<close>. An \<open>await\<close> of a value that is
  already there does not suspend the unit for the purposes of this model: nothing else
  of the worker runs in between.
\<close>

datatype stage = AwaitUpgrade TypstCompiler | AwaitCompiler | AwaitCompile

text \<open>
  What the worker does, in program order: calls of \<open>createCompilerWithFonts\<close>, the
  start of a queued unit, the calls on the renderer for a request (\<open>addSource\<close>,
  \<open>mapShadow\<close> for every image, \<open>compile\<close>), and \<open>ctx.postMessage\<close>.
\<close>

datatype action =
    Construct "string list"
  | Start string
  | Render string TypstCompiler jsstring "(jsstring \<times> bytes) list"
  | Post CompileResponse

text \<open>
  The module's variables \<open>compilerPromise\<close> and \<open>emojiLoaded\<close>. The promise chain
  \<open>compileQueue\<close> is kept as the requests whose callbacks were chained with \<open>.then\<close>
  and have not started, oldest first, and the request whose callback is executing, with
  the place it is suspended at. A callback of the chain starts when the promise before
  it is fulfilled, that is when the callback before it has run to its end.
\<close>

record worker =
  compilerPromise :: "promise option"
  emojiLoaded :: bool
  compileQueue :: "CompileRequest list"
  running :: "(CompileRequest \<times> stage) option"
  trace :: "action list"

definition freshWorker :: worker where
  "freshWorker = \<lparr> compilerPromise = None, emojiLoaded = False, compileQueue = [],
     running = None, trace = [] \<rparr>"

definition record_action :: "action list \<Rightarrow> worker \<Rightarrow> worker" where
  "record_action as w = w\<lparr> trace := trace w @ as \<rparr>"

subsection \<open>Helpers\<close>

text \<open>
  \<open>createCompilerWithFonts\<close>, up to its \<open>await compiler.init(...)\<close>: the promise it
  returns is pending, for the compiler it created.
\<close>

definition createCompilerWithFonts :: "string list \<Rightarrow> worker \<Rightarrow> TypstCompiler \<times> worker" where
  "createCompilerWithFonts fonts w = (TypstCompiler fonts, record_action [Construct fonts] w)"

text \<open>
  The regular expression has three classes and no flags, so it matches when some code
  unit of the text is a surrogate (\<open>D800\<close> to \<open>DFFF\<close>) or lies in \<open>2600\<close> to
  \<open>26FF\<close> or in \<open>2700\<close> to \<open>27BF\<close>.
\<close>

definition needsEmojiFont :: "jsstring \<Rightarrow> bool" where
  "needsEmojiFont text =
     list_ex (\<lambda>c. (0xD800 \<le> c \<and> c \<le> 0xDFFF) \<or> (0x2600 \<le> c \<and> c \<le> 0x26FF)
                 \<or> (0x2700 \<le> c \<and> c \<le> 0x27BF)) text"

definition getCurrentFonts :: "worker \<Rightarrow> string list" where
  "getCurrentFonts w = (if emojiLoaded w then CORE_FONTS @ EMOJI_FONTS else CORE_FONTS)"

subsection \<open>Compiler management\<close>

text \<open>
  \<open>upgradeCompilerWithEmoji\<close> up to its \<open>await\<close>: \<open>None\<close> when it returns at once,
  \<open>Some c\<close> when it has set \<open>emojiLoaded\<close> and awaits the construction of \<open>c\<close>.
  \<open>upgraded\<close> is the rest of it, run when that construction has succeeded.
\<close>

definition upgradeCompilerWithEmoji :: "worker \<Rightarrow> TypstCompiler option \<times> worker" where
  "upgradeCompilerWithEmoji w =
     (if emojiLoaded w then (None, w)
      else
        (let w1 = w\<lparr> emojiLoaded := True \<rparr>;
             (newCompiler, w2) = createCompilerWithFonts (getCurrentFonts w1) w1
         in (Some newCompiler, w2)))"

definition upgraded :: "TypstCompiler \<Rightarrow> worker \<Rightarrow> worker" where
  "upgraded newCompiler w = w\<lparr> compilerPromise := Some (Promise newCompiler Fulfilled) \<rparr>"

definition getCompiler :: "worker \<Rightarrow> promise \<times> worker" where
  "getCompiler w =
     (case compilerPromise w of
        Some p \<Rightarrow> (p, w)
      | None \<Rightarrow>
          (let (c, w1) = createCompilerWithFonts CORE_FONTS w;
               p = Promise c Pending
           in (p, w1\<lparr> compilerPromise := Some p \<rparr>)))"

subsection \<open>Compilation\<close>

text \<open>\<open>Array.prototype.join\<close> on strings.\<close>

fun join :: "jsstring \<Rightarrow> jsstring list \<Rightarrow> jsstring" where
  "join sep [] = []"
| "join sep [x] = x"
| "join sep (x # y # ys) = x @ sep @ join sep (y # ys)"

text \<open>The message used when there is nothing to join: seventeen code units, six of them ASCII.\<close>

definition noDiagnostics :: jsstring where
  "noDiagnostics = [0x54, 0x79, 0x70, 0x73, 0x74, 0x20, 0x7F16, 0x8BD1, 0x5931, 0x8D25,
     0xFF08, 0x65E0, 0x8BCA, 0x65AD, 0x4FE1, 0x606F, 0xFF09]"

text \<open>
  The end of \<open>compilePdf\<close>, from the value \<open>compiler.compile\<close> resolved with: the
  diagnostics (\<open>?? []\<close>; \<open>map(String)\<close> leaves strings as they are), then either the
  \<open>Error\<close> that is thrown or the value that is returned.
\<close>

definition compilePdfResult :: "RenderResult \<Rightarrow> thrown + (bytes \<times> jsstring list)" where
  "compilePdfResult r =
     (let ds = (case renderDiagnostics r of None \<Rightarrow> [] | Some xs \<Rightarrow> xs)
      in case result r of
           None \<Rightarrow>
             Inl (ErrorObject
               (let m = join [0x0A] ds in if m = [] then noDiagnostics else m))
         | Some p \<Rightarrow> Inr (p, ds))"

text \<open>
  The two \<open>postMessage\<close> calls of the handler: after \<open>compilePdf\<close> returned, and in
  the \<open>catch\<close> block.
\<close>

definition response :: "CompileRequest \<Rightarrow> thrown + (bytes \<times> jsstring list) \<Rightarrow> CompileResponse" where
  "response req r =
     (case r of
        Inr (p, ds) \<Rightarrow>
          \<lparr> respId = msgId req, ok = True, respPdf = Some p, respError = None,
            diagnostics = ds \<rparr>
      | Inl e \<Rightarrow>
          \<lparr> respId = msgId req, ok = False, respPdf = None, respError = Some (errorText e),
            diagnostics = [] \<rparr>)"

text \<open>The unit ends: its reply is posted and the promise of its callback is fulfilled.\<close>

definition finish :: "CompileRequest \<Rightarrow> thrown + (bytes \<times> jsstring list) \<Rightarrow> worker \<Rightarrow> worker" where
  "finish req r w = (record_action [Post (response req r)] w)\<lparr> running := None \<rparr>"

text \<open>
  \<open>compilePdf\<close> from the point where it holds the compiler: \<open>addSource\<close>, a
  \<open>mapShadow\<close> for every image (\<open>images\<close> defaults to \<open>{}\<close>), and the call of
  \<open>compile\<close>, whose promise it awaits. The three are one entry of the trace; a throw
  from any of them reaches the handler's \<open>catch\<close> block like a rejection of \<open>compile\<close>.
\<close>

definition shadows :: "CompileRequest \<Rightarrow> (jsstring \<times> bytes) list" where
  "shadows req = map (\<lambda>(path, data). (0x2F # path, data))
                   (case images req of None \<Rightarrow> [] | Some xs \<Rightarrow> xs)"

definition render :: "CompileRequest \<Rightarrow> TypstCompiler \<Rightarrow> worker \<Rightarrow> worker" where
  "render req c w =
     (record_action [Render (msgId req) c (mainTypst req) (shadows req)] w)
       \<lparr> running := Some (req, AwaitCompile) \<rparr>"

text \<open>\<open>const compiler = await getCompiler()\<close> and what follows.\<close>

definition awaitCompiler :: "CompileRequest \<Rightarrow> worker \<Rightarrow> worker" where
  "awaitCompiler req w =
     (let (p, w1) = getCompiler w
      in case outcome p of
           Pending \<Rightarrow> w1\<lparr> running := Some (req, AwaitCompiler) \<rparr>
         | Fulfilled \<Rightarrow> render req (promised p) w1
         | Rejected e \<Rightarrow> finish req (Inl e) w1)"

text \<open>A queued callback starts: \<open>compilePdf(message.mainTypst, message.images)\<close>.\<close>

definition beginUnit :: "CompileRequest \<Rightarrow> worker \<Rightarrow> worker" where
  "beginUnit req w =
     (let w0 = record_action [Start (msgId req)] w
      in if needsEmojiFont (mainTypst req)
         then (case upgradeCompilerWithEmoji w0 of
                 (None, w1) \<Rightarrow> awaitCompiler req w1
               | (Some c, w1) \<Rightarrow> w1\<lparr> running := Some (req, AwaitUpgrade c) \<rparr>)
         else awaitCompiler req w0)"

text \<open>
  The chain moves on: while no unit is executing, the oldest queued callback starts. It
  either suspends, or ends at once (when the memoized promise is already rejected), in
  which case the next one starts.
\<close>

fun startQueued :: "CompileRequest list \<Rightarrow> worker \<Rightarrow> worker" where
  "startQueued [] w = w\<lparr> compileQueue := [] \<rparr>"
| "startQueued (req # rest) w =
     (let w' = beginUnit req w
      in case running w' of
           None \<Rightarrow> startQueued rest w'
         | Some _ \<Rightarrow> w'\<lparr> compileQueue := rest \<rparr>)"

definition proceed :: "worker \<Rightarrow> worker" where
  "proceed w = (case running w of Some _ \<Rightarrow> w | None \<Rightarrow> startQueued (compileQueue w) w)"

subsection \<open>Message handler and events\<close>

text \<open>\<open>ctx.onmessage\<close>; \<open>None\<close> is an event without data.\<close>

definition onmessage :: "CompileRequest option \<Rightarrow> worker \<Rightarrow> worker" where
  "onmessage message w =
     (case message of
        None \<Rightarrow> w
      | Some m \<Rightarrow>
          if msgType m \<noteq> ''compile'' then w
          else proceed (w\<lparr> compileQueue := compileQueue w @ [m] \<rparr>))"

text \<open>
  What the worker reacts to: a message, the end of the construction the executing unit
  waits for (\<open>None\<close> for success, \<open>Some e\<close> for a failure with \<open>e\<close>), and the settling of
  \<open>compiler.compile\<close> (rejected with \<open>e\<close>, or resolved). A signal that the executing
  unit is not waiting for does nothing.
\<close>

datatype signal =
    Message "CompileRequest option"
  | Built "thrown option"
  | Rendered "thrown + RenderResult"

fun handle :: "worker \<Rightarrow> signal \<Rightarrow> worker" where
  "handle w (Message m) = onmessage m w"
| "handle w (Built b) =
     (case running w of
        Some (req, AwaitUpgrade c) \<Rightarrow>
          (case b of
             None \<Rightarrow> proceed (awaitCompiler req (upgraded c w))
           | Some e \<Rightarrow> proceed (finish req (Inl e) w))
      | Some (req, AwaitCompiler) \<Rightarrow>
          (case compilerPromise w of
             Some (Promise c Pending) \<Rightarrow>
               (case b of
                  None \<Rightarrow>
                    proceed (render req c (w\<lparr> compilerPromise := Some (Promise c Fulfilled) \<rparr>))
                | Some e \<Rightarrow>
                    proceed (finish req (Inl e)
                      (w\<lparr> compilerPromise := Some (Promise c (Rejected e)) \<rparr>)))
           | _ \<Rightarrow> w)
      | _ \<Rightarrow> w)"
| "handle w (Rendered r) =
     (case running w of
        Some (req, AwaitCompile) \<Rightarrow>
          proceed (finish req (case r of Inl e \<Rightarrow> Inl e | Inr v \<Rightarrow> compilePdfResult v) w)
      | _ \<Rightarrow> w)"

definition execute :: "signal list \<Rightarrow> worker \<Rightarrow> worker" where
  "execute sigs w = foldl handle w sigs"

subsection \<open>Reading a trace\<close>

text \<open>The renderer state the worker is in, judged by the memoized promise.\<close>

datatype RendererState = Uninitialized | Base | Upgraded

definition rendererState :: "worker \<Rightarrow> RendererState" where
  "rendererState w =
     (case compilerPromise w of
        None \<Rightarrow> Uninitialized
      | Some p \<Rightarrow>
          if compilerFonts (promised p) = CORE_FONTS @ EMOJI_FONTS then Upgraded else Base)"


text \<open>The compile requests among the signals, in arrival order.\<close>

fun accepted :: "signal list \<Rightarrow> CompileRequest list" where
  "accepted [] = []"
| "accepted (Message (Some m) # sigs) =
     (if msgType m = ''compile'' then m # accepted sigs else accepted sigs)"
| "accepted (_ # sigs) = accepted sigs"

fun posts :: "action list \<Rightarrow> CompileResponse list" where
  "posts [] = []"
| "posts (Post r # as) = r # posts as"
| "posts (_ # as) = posts as"

text \<open>
  A trace is serial from \<open>cur\<close> (the unit executing, if any) when a unit starts only
  while none executes, every renderer call and construction happens inside a unit, the
  renderer call carries that unit's id, and a reply is the executing unit's and ends it.
  \<open>serialEnd\<close> also gives the unit executing at the end.
\<close>

fun serialEnd :: "string option \<Rightarrow> action list \<Rightarrow> string option option" where
  "serialEnd cur [] = Some cur"
| "serialEnd None (Start i # as) = serialEnd (Some i) as"
| "serialEnd (Some i) (Construct f # as) = serialEnd (Some i) as"
| "serialEnd (Some i) (Render j c src sh # as) =
     (if j = i then serialEnd (Some i) as else None)"
| "serialEnd (Some i) (Post r # as) = (if respId r = i then serialEnd None as else None)"
| "serialEnd _ _ = None"

definition serial :: "action list \<Rightarrow> bool" where
  "serial as \<longleftrightarrow> serialEnd None as \<noteq> None"

text \<open>
  No construction, and every renderer call on the compiler \<open>c\<close>.
\<close>

fun onlyUses :: "TypstCompiler \<Rightarrow> action list \<Rightarrow> bool" where
  "onlyUses c [] = True"
| "onlyUses c (Construct f # as) = False"
| "onlyUses c (Render i c' src sh # as) = (c' = c \<and> onlyUses c as)"
| "onlyUses c (_ # as) = onlyUses c as"

text \<open>The units not finished: the one executing and the ones queued.\<close>

definition outstanding :: "worker \<Rightarrow> CompileRequest list" where
  "outstanding w = (case running w of None \<Rightarrow> [] | Some (req, st) \<Rightarrow> [req]) @ compileQueue w"

text \<open>The trace so far is serial and ends in the unit that is executing.\<close>

definition serialInv :: "worker \<Rightarrow> bool" where
  "serialInv w \<longleftrightarrow>
     serialEnd None (trace w) = Some (case running w of None \<Rightarrow> None | Some u \<Rightarrow> Some (msgId (fst u)))"

text \<open>
  How the memoized promise, \<open>emojiLoaded\<close> and the executing unit fit together: the
  promise is for a compiler with the core fonts, or it is the fulfilled one
  \<open>upgradeCompilerWithEmoji\<close> stored; it is pending only while the unit that created it
  waits for it; a unit waits for the upgrade only before the upgraded compiler is stored.
\<close>

definition shapeInv :: "worker \<Rightarrow> bool" where
  "shapeInv w \<longleftrightarrow>
     (case compilerPromise w of
        None \<Rightarrow> True
      | Some p \<Rightarrow>
          promised p = TypstCompiler CORE_FONTS
          \<or> (promised p = TypstCompiler (CORE_FONTS @ EMOJI_FONTS)
              \<and> outcome p = Fulfilled \<and> emojiLoaded w))
     \<and> (case running w of
          None \<Rightarrow> (case compilerPromise w of None \<Rightarrow> True | Some p \<Rightarrow> outcome p \<noteq> Pending)
        | Some (req, AwaitUpgrade c) \<Rightarrow>
            c = TypstCompiler (CORE_FONTS @ EMOJI_FONTS) \<and> emojiLoaded w
            \<and> (case compilerPromise w of
                  None \<Rightarrow> True
                | Some p \<Rightarrow> outcome p \<noteq> Pending \<and> promised p = TypstCompiler CORE_FONTS)
        | Some (req, AwaitCompiler) \<Rightarrow>
            (case compilerPromise w of None \<Rightarrow> False | Some p \<Rightarrow> outcome p = Pending)
        | Some (req, AwaitCompile) \<Rightarrow>
            (case compilerPromise w of None \<Rightarrow> False | Some p \<Rightarrow> outcome p = Fulfilled))"

text \<open>How often each of the two font sets was constructed.\<close>

definition countInv :: "worker \<Rightarrow> bool" where
  "countInv w \<longleftrightarrow>
     count_list (trace w) (Construct CORE_FONTS) \<le> 1
     \<and> (compilerPromise w = None \<longrightarrow> count_list (trace w) (Construct CORE_FONTS) = 0)
     \<and> count_list (trace w) (Construct (CORE_FONTS @ EMOJI_FONTS)) \<le> 1
     \<and> (\<not> emojiLoaded w \<longrightarrow> count_list (trace w) (Construct (CORE_FONTS @ EMOJI_FONTS)) = 0)"

text \<open>
  The worker has settled on the compiler \<open>c\<close>: the memoized promise is fulfilled with
  it, \<open>emojiLoaded\<close> is set, and no unit waits for a construction. \<open>since t c w\<close> says
  moreover that the trace of \<open>w\<close> continues \<open>t\<close> with no construction and with renderer
  calls on \<open>c\<close> only.
\<close>

definition settledOn :: "TypstCompiler \<Rightarrow> worker \<Rightarrow> bool" where
  "settledOn c w \<longleftrightarrow>
     emojiLoaded w \<and> compilerPromise w = Some (Promise c Fulfilled)
     \<and> (case running w of None \<Rightarrow> True | Some u \<Rightarrow> snd u = AwaitCompile)"

definition since :: "action list \<Rightarrow> TypstCompiler \<Rightarrow> worker \<Rightarrow> bool" where
  "since t c w \<longleftrightarrow>
     settledOn c w \<and> take (length t) (trace w) = t \<and> onlyUses c (drop (length t) (trace w))"

text \<open>Replies posted, then requests not finished: the requests in the order they are served.\<close>

definition ledger :: "worker \<Rightarrow> string list" where
  "ledger w = map respId (posts (trace w)) @ map msgId (outstanding w)"

text \<open>
  \<open>n\<close> rounds of an environment that lets every construction succeed and settles every
  call of \<open>compile\<close> with \<open>r\<close>.
\<close>

definition rounds :: "nat \<Rightarrow> thrown + RenderResult \<Rightarrow> signal list" where
  "rounds n r = concat (replicate n [Built None, Rendered r])"

text \<open>With no unit executing, none is queued.\<close>

definition idleInv :: "worker \<Rightarrow> bool" where
  "idleInv w \<longleftrightarrow> (running w = None \<longrightarrow> compileQueue w = [])"



section \<open>Properties of the compile coordinator\<close>

subsection \<open>Fields after each operation\<close>

lemma emit_fields [simp]:
  "compileSeq (emit es s) = compileSeq s"
  "currentPdfUrl (emit es s) = currentPdfUrl s"
  "listeners (emit es s) = listeners s"
  "liveUrls (emit es s) = liveUrls s"
  "nextUrl (emit es s) = nextUrl s"
  "effects (emit es s) = effects s @ es"
  by (simp_all add: emit_def)

lemma notify_fields [simp]:
  "compileSeq (notifyStatusChange st s) = compileSeq s"
  "currentPdfUrl (notifyStatusChange st s) = currentPdfUrl s"
  "listeners (notifyStatusChange st s) = listeners s"
  "liveUrls (notifyStatusChange st s) = liveUrls s"
  "nextUrl (notifyStatusChange st s) = nextUrl s"
  "compileSeq (notifySuccess p u s) = compileSeq s"
  "currentPdfUrl (notifySuccess p u s) = currentPdfUrl s"
  "listeners (notifySuccess p u s) = listeners s"
  "liveUrls (notifySuccess p u s) = liveUrls s"
  "nextUrl (notifySuccess p u s) = nextUrl s"
  "compileSeq (notifyError m s) = compileSeq s"
  "currentPdfUrl (notifyError m s) = currentPdfUrl s"
  "listeners (notifyError m s) = listeners s"
  "liveUrls (notifyError m s) = liveUrls s"
  "nextUrl (notifyError m s) = nextUrl s"
  by (simp_all add: notifyStatusChange_def notifySuccess_def notifyError_def)

lemma revoke_fields [simp]:
  "compileSeq (revokeObjectURL u s) = compileSeq s"
  "currentPdfUrl (revokeObjectURL u s) = currentPdfUrl s"
  "listeners (revokeObjectURL u s) = listeners s"
  "liveUrls (revokeObjectURL u s) = removeAll u (liveUrls s)"
  "nextUrl (revokeObjectURL u s) = nextUrl s"
  "effects (revokeObjectURL u s) = effects s @ [RevokeObjectURL u]"
  by (simp_all add: revokeObjectURL_def)

lemma create_fields [simp]:
  "fst (createObjectURL p s) = BlobUrl (nextUrl s)"
  "compileSeq (snd (createObjectURL p s)) = compileSeq s"
  "currentPdfUrl (snd (createObjectURL p s)) = currentPdfUrl s"
  "listeners (snd (createObjectURL p s)) = listeners s"
  "liveUrls (snd (createObjectURL p s)) = liveUrls s @ [BlobUrl (nextUrl s)]"
  "nextUrl (snd (createObjectURL p s)) = nextUrl s + 1"
  "effects (snd (createObjectURL p s)) = effects s @ [CreateObjectURL p (BlobUrl (nextUrl s))]"
  by (simp_all add: createObjectURL_def Let_def)

lemma compileBegin_fields:
  "fst (compileBegin code s) = compileSeq s + 1"
  "compileSeq (snd (compileBegin code s)) = compileSeq s + 1"
  "currentPdfUrl (snd (compileBegin code s)) = currentPdfUrl s"
  "listeners (snd (compileBegin code s)) = listeners s"
  "liveUrls (snd (compileBegin code s)) = liveUrls s"
  "nextUrl (snd (compileBegin code s)) = nextUrl s"
  "effects (snd (compileBegin code s)) = effects s
     @ map (\<lambda>l. StatusChanged l Compiling) (filter onStatusChange (listeners s))
     @ [ClientCompilePdf code]"
  by (simp_all add: compileBegin_def Let_def notifyStatusChange_def)

lemma stale_reply: "seq \<noteq> compileSeq s \<Longrightarrow> compileResume seq r s = (stale, s)"
  by (simp add: compileResume_def split: sum.splits)

lemma failure_reply:
  "compileResume (compileSeq s) (Inl e) s =
     (\<lparr> success = False, pdf = None, pdfUrl = None, error = Some (errorText e),
        status = Error \<rparr>,
      emit (map (\<lambda>l. Errored l (errorText e)) (filter onError (listeners s))
            @ map (\<lambda>l. StatusChanged l Error) (filter onStatusChange (listeners s))) s)"
  by (simp add: compileResume_def Let_def notifyError_def notifyStatusChange_def emit_def)

lemma success_reply_fields:
  "fst (compileResume (compileSeq s) (Inr p) s) =
     \<lparr> success = True, pdf = Some p, pdfUrl = Some (BlobUrl (nextUrl s)), error = None,
       status = Done \<rparr>"
  "compileSeq (snd (compileResume (compileSeq s) (Inr p) s)) = compileSeq s"
  "currentPdfUrl (snd (compileResume (compileSeq s) (Inr p) s)) = Some (BlobUrl (nextUrl s))"
  "listeners (snd (compileResume (compileSeq s) (Inr p) s)) = listeners s"
  "liveUrls (snd (compileResume (compileSeq s) (Inr p) s)) =
     (case currentPdfUrl s of None \<Rightarrow> liveUrls s | Some old \<Rightarrow> removeAll old (liveUrls s))
     @ [BlobUrl (nextUrl s)]"
  "nextUrl (snd (compileResume (compileSeq s) (Inr p) s)) = nextUrl s + 1"
  "effects (snd (compileResume (compileSeq s) (Inr p) s)) = effects s
     @ (case currentPdfUrl s of None \<Rightarrow> [] | Some old \<Rightarrow> [RevokeObjectURL old])
     @ [CreateObjectURL p (BlobUrl (nextUrl s))]
     @ map (\<lambda>l. Succeeded l p (BlobUrl (nextUrl s))) (filter onSuccess (listeners s))
     @ map (\<lambda>l. StatusChanged l Done) (filter onStatusChange (listeners s))"
  by (simp_all add: compileResume_def Let_def notifySuccess_def notifyStatusChange_def
      split_beta split: option.splits)

lemma dispose_fields:
  "compileSeq (dispose s) = compileSeq s"
  "currentPdfUrl (dispose s) = None"
  "listeners (dispose s) = []"
  "liveUrls (dispose s) =
     (case currentPdfUrl s of None \<Rightarrow> liveUrls s | Some u \<Rightarrow> removeAll u (liveUrls s))"
  "nextUrl (dispose s) = nextUrl s"
  "effects (dispose s) = effects s @ [ClientDispose]
     @ (case currentPdfUrl s of None \<Rightarrow> [] | Some u \<Rightarrow> [RevokeObjectURL u])"
  by (simp_all add: dispose_def Let_def split: option.splits)

lemma addListener_fields:
  "compileSeq (addListener l s) = compileSeq s"
  "currentPdfUrl (addListener l s) = currentPdfUrl s"
  "listeners (addListener l s) = listeners s @ [l]"
  "liveUrls (addListener l s) = liveUrls s"
  "nextUrl (addListener l s) = nextUrl s"
  "effects (addListener l s) = effects s"
  by (simp_all add: addListener_def)

subsection \<open>Unsubscribing removes the first registration\<close>

lemma indexOf_ge: "- 1 \<le> indexOf xs x"
  by (induction xs) (simp_all add: Let_def)

lemma indexOf_absent: "indexOf xs x = - 1 \<longleftrightarrow> x \<notin> set xs"
proof (induction xs)
  case Nil
  show ?case by simp
next
  case (Cons y ys)
  have "- 1 \<le> indexOf ys x" by (rule indexOf_ge)
  with Cons show ?case by (auto simp: Let_def)
qed

lemma indexOf_found: "- 1 < indexOf xs x \<longleftrightarrow> x \<in> set xs"
  using indexOf_ge [of xs x] indexOf_absent [of xs x] by linarith

lemma splice1_indexOf: "x \<in> set xs \<Longrightarrow> splice1 (indexOf xs x) xs = remove1 x xs"
proof (induction xs)
  case Nil
  then show ?case by simp
next
  case (Cons y ys)
  show ?case
  proof (cases "y = x")
    case True
    then show ?thesis by (simp add: splice1_def)
  next
    case False
    with Cons.prems have mem: "x \<in> set ys" by simp
    then have pos: "0 \<le> indexOf ys x"
      using indexOf_found [of ys x] by linarith
    then have "nat (indexOf ys x + 1) = Suc (nat (indexOf ys x))" by simp
    with False mem pos Cons.IH show ?thesis
      using indexOf_absent [of ys x] by (simp add: splice1_def Let_def)
  qed
qed

lemma unsubscribe_remove1:
  "unsubscribe l s = s\<lparr> listeners := remove1 l (listeners s) \<rparr>"
proof (cases "l \<in> set (listeners s)")
  case True
  then show ?thesis
    using indexOf_found [of "listeners s" l]
    by (simp add: unsubscribe_def Let_def splice1_indexOf)
next
  case False
  then show ?thesis
    using indexOf_found [of "listeners s" l]
    by (simp add: unsubscribe_def Let_def remove1_idem)
qed

lemma unsubscribe_fields:
  "compileSeq (unsubscribe l s) = compileSeq s"
  "currentPdfUrl (unsubscribe l s) = currentPdfUrl s"
  "listeners (unsubscribe l s) = remove1 l (listeners s)"
  "liveUrls (unsubscribe l s) = liveUrls s"
  "nextUrl (unsubscribe l s) = nextUrl s"
  "effects (unsubscribe l s) = effects s"
  by (simp_all add: unsubscribe_remove1)

subsection \<open>The sequence counter along an execution\<close>

lemma compileSeq_compileResume: "compileSeq (snd (compileResume seq r s)) = compileSeq s"
proof (cases "seq = compileSeq s")
  case True
  then show ?thesis
    by (cases r) (simp_all add: failure_reply success_reply_fields)
next
  case False
  then show ?thesis by (simp add: stale_reply)
qed

lemma compileSeq_step:
  "compileSeq (step s ev) = (if isCompile ev then compileSeq s + 1 else compileSeq s)"
  by (cases ev)
    (simp_all add: compileBegin_fields compileSeq_compileResume dispose_fields
      unsubscribe_fields addListener_fields)

lemma compileSeq_run:
  "compileSeq (run evs s) = compileSeq s + length (filter isCompile evs)"
  unfolding run_def
  by (induction evs arbitrary: s) (simp_all add: compileSeq_step)

subsection \<open>Supersession\<close>

text \<open>
  Claim C1. Take any call of \<open>compile\<close>, with \<open>mine\<close> the sequence number it
  captured, and any events \<open>evs\<close> that happen before its reply arrives (other calls,
  other replies, registrations, disposal). The call is current when its reply arrives
  exactly if no later call of \<open>compile\<close> was made in between. Any reply whose sequence
  number differs from the counter returns \<open>{success: false, status: 'idle'}\<close> and
  leaves the whole state as it was: no object URL is created or revoked, no callback is
  invoked, nothing is logged. So a reply that ends with status \<open>done\<close> or \<open>error\<close>
  carries the counter's value.
\<close>

theorem highest_sequence_wins:
  fixes s :: service
  assumes call: "compileBegin code s = (mine, s1)"
      and later: "s2 = run evs s1"
  shows "(mine = compileSeq s2 \<longleftrightarrow> \<not> list_ex isCompile evs)
       \<and> (\<forall>seq r. seq \<noteq> compileSeq s2 \<longrightarrow> compileResume seq r s2 = (stale, s2))
       \<and> (list_ex isCompile evs \<longrightarrow> (\<forall>r. compileResume mine r s2 = (stale, s2)))
       \<and> (\<forall>seq r. status (fst (compileResume seq r s2)) \<in> {Done, Error}
             \<longrightarrow> seq = compileSeq s2)"
proof -
  have mine: "mine = compileSeq s + 1" and s1: "compileSeq s1 = compileSeq s + 1"
    using call compileBegin_fields(1,2) [of code s] by simp_all
  have s2: "compileSeq s2 = mine + length (filter isCompile evs)"
    using later mine s1 by (simp add: compileSeq_run)
  have ex: "list_ex isCompile evs \<longleftrightarrow> filter isCompile evs \<noteq> []"
    by (simp add: list_ex_iff filter_empty_conv)
  have a: "mine = compileSeq s2 \<longleftrightarrow> \<not> list_ex isCompile evs"
    using s2 ex by simp
  have b: "\<forall>seq r. seq \<noteq> compileSeq s2 \<longrightarrow> compileResume seq r s2 = (stale, s2)"
    by (simp add: stale_reply)
  have c: "list_ex isCompile evs \<longrightarrow> (\<forall>r. compileResume mine r s2 = (stale, s2))"
    using a b by blast
  have d: "\<forall>seq r. status (fst (compileResume seq r s2)) \<in> {Done, Error}
      \<longrightarrow> seq = compileSeq s2"
  proof (intro allI impI)
    fix seq r
    assume st: "status (fst (compileResume seq r s2)) \<in> {Done, Error}"
    show "seq = compileSeq s2"
    proof (rule ccontr)
      assume "seq \<noteq> compileSeq s2"
      then have "compileResume seq r s2 = (stale, s2)" by (rule stale_reply)
      with st show False by (simp add: stale_def)
    qed
  qed
  from a b c d show ?thesis by blast
qed

text \<open>
  Two overlapping calls on a fresh service: the reply of the first, arriving after the
  second call was made, is discarded.
\<close>

theorem highest_sequence_wins_witness:
  "compileResume (fst (compileBegin [0x61] initial)) (Inr [0x25])
       (run [Compile [0x62]] (snd (compileBegin [0x61] initial)))
     = (stale, run [Compile [0x62]] (snd (compileBegin [0x61] initial)))
   \<and> list_ex isCompile [Compile [0x62]]
   \<and> fst (compileBegin [0x61] initial) = 1
   \<and> compileSeq (run [Compile [0x62]] (snd (compileBegin [0x61] initial))) = 2"
proof -
  have call: "compileBegin [0x61] initial
      = (fst (compileBegin [0x61] initial), snd (compileBegin [0x61] initial))"
    by simp
  have other: "list_ex isCompile [Compile [0x62]]" by simp
  have "compileResume (fst (compileBegin [0x61] initial)) (Inr [0x25])
       (run [Compile [0x62]] (snd (compileBegin [0x61] initial)))
     = (stale, run [Compile [0x62]] (snd (compileBegin [0x61] initial)))"
    using highest_sequence_wins [OF call refl, of "[Compile [0x62]]"] other by blast
  moreover have "fst (compileBegin [0x61] initial) = 1"
    by (simp add: compileBegin_fields(1) initial_def)
  moreover have "compileSeq (run [Compile [0x62]] (snd (compileBegin [0x61] initial))) = 2"
    by (simp add: compileSeq_run compileBegin_fields(2) initial_def)
  ultimately show ?thesis using other by blast
qed

subsection \<open>Failure of a current reply\<close>

text \<open>
  Claim C5. When the reply of a current call is a failure, \<open>compile\<close> returns
  \<open>{success: false, error: message, status: 'error'}\<close>, where the message is the
  \<open>message\<close> of the \<open>Error\<close> the client rejected with (or \<open>String(error)\<close> for a
  value that is no \<open>Error\<close>). Before that it calls \<open>onError\<close> with this message on
  every listener that has one, in registration order, and then
  \<open>onStatusChange('error')\<close> on every listener that has one; it does nothing else.
  \<open>currentPdfUrl\<close>, the live object URLs and every other field are the ones before
  the reply, and the synchronous part of the call did not touch the URL either.
\<close>

theorem failure_is_reported_and_keeps_artifact:
  fixes s :: service and m v :: jsstring and e :: thrown
  shows "fst (compileResume (compileSeq s) (Inl (ErrorObject m)) s)
           = \<lparr> success = False, pdf = None, pdfUrl = None, error = Some m, status = Error \<rparr>
       \<and> effects (snd (compileResume (compileSeq s) (Inl (ErrorObject m)) s))
           = effects s @ map (\<lambda>l. Errored l m) (filter onError (listeners s))
               @ map (\<lambda>l. StatusChanged l Error) (filter onStatusChange (listeners s))
       \<and> fst (compileResume (compileSeq s) (Inl (NonError v)) s)
           = \<lparr> success = False, pdf = None, pdfUrl = None, error = Some v, status = Error \<rparr>
       \<and> effects (snd (compileResume (compileSeq s) (Inl (NonError v)) s))
           = effects s @ map (\<lambda>l. Errored l v) (filter onError (listeners s))
               @ map (\<lambda>l. StatusChanged l Error) (filter onStatusChange (listeners s))
       \<and> currentPdfUrl (snd (compileResume (compileSeq s) (Inl e) s)) = currentPdfUrl s
       \<and> liveUrls (snd (compileResume (compileSeq s) (Inl e) s)) = liveUrls s
       \<and> nextUrl (snd (compileResume (compileSeq s) (Inl e) s)) = nextUrl s
       \<and> listeners (snd (compileResume (compileSeq s) (Inl e) s)) = listeners s
       \<and> compileSeq (snd (compileResume (compileSeq s) (Inl e) s)) = compileSeq s
       \<and> currentPdfUrl (snd (compileBegin code s)) = currentPdfUrl s
       \<and> liveUrls (snd (compileBegin code s)) = liveUrls s"
proof -
  have "errorText (ErrorObject m) = m" and "errorText (NonError v) = v" by simp_all
  then show ?thesis
    using failure_reply [of s "ErrorObject m"] failure_reply [of s "NonError v"]
      failure_reply [of s e]
    by (simp add: compileBegin_fields)
qed

text \<open>
  Two listeners, the second without \<open>onError\<close>, one compile, and the client rejects
  with an \<open>Error\<close> whose message is \<open>err\<close>: the first listener is told the message,
  then both are told the status, and the call returns the message.
\<close>

theorem failure_is_reported_and_keeps_artifact_witness:
  "fst (compileResume 1 (Inl (ErrorObject [0x65, 0x72, 0x72]))
      (run [AddListener (CompileListener 1 True True True),
            AddListener (CompileListener 2 True True False),
            Compile [0x23]] initial))
     = \<lparr> success = False, pdf = None, pdfUrl = None, error = Some [0x65, 0x72, 0x72],
         status = Error \<rparr>
   \<and> effects (snd (compileResume 1 (Inl (ErrorObject [0x65, 0x72, 0x72]))
      (run [AddListener (CompileListener 1 True True True),
            AddListener (CompileListener 2 True True False),
            Compile [0x23]] initial)))
     = [StatusChanged (CompileListener 1 True True True) Compiling,
        StatusChanged (CompileListener 2 True True False) Compiling,
        ClientCompilePdf [0x23],
        Errored (CompileListener 1 True True True) [0x65, 0x72, 0x72],
        StatusChanged (CompileListener 1 True True True) Error,
        StatusChanged (CompileListener 2 True True False) Error]
   \<and> currentPdfUrl (snd (compileResume 1 (Inl (ErrorObject [0x65, 0x72, 0x72]))
      (run [AddListener (CompileListener 1 True True True),
            AddListener (CompileListener 2 True True False),
            Compile [0x23]] initial))) = None"
proof -
  let ?l1 = "CompileListener 1 True True True"
  let ?l2 = "CompileListener 2 True True False"
  let ?s = "run [AddListener ?l1, AddListener ?l2, Compile [0x23]] initial"
  have seq: "compileSeq ?s = 1"
    by (simp add: compileSeq_run initial_def)
  have ls: "listeners ?s = [?l1, ?l2]"
    by (simp add: run_def compileBegin_fields addListener_fields initial_def)
  have es: "effects ?s = [StatusChanged ?l1 Compiling, StatusChanged ?l2 Compiling,
      ClientCompilePdf [0x23]]"
    by (simp add: run_def compileBegin_fields addListener_fields initial_def)
  have url: "currentPdfUrl ?s = None"
    by (simp add: run_def compileBegin_fields addListener_fields initial_def)
  note h = failure_is_reported_and_keeps_artifact [of ?s "[0x65, 0x72, 0x72]", unfolded seq]
  from h have "fst (compileResume 1 (Inl (ErrorObject [0x65, 0x72, 0x72])) ?s)
      = \<lparr> success = False, pdf = None, pdfUrl = None, error = Some [0x65, 0x72, 0x72],
          status = Error \<rparr>"
    by blast
  moreover from h have "effects (snd (compileResume 1 (Inl (ErrorObject [0x65, 0x72, 0x72])) ?s))
      = effects ?s @ map (\<lambda>l. Errored l [0x65, 0x72, 0x72]) (filter onError (listeners ?s))
        @ map (\<lambda>l. StatusChanged l Error) (filter onStatusChange (listeners ?s))"
    by blast
  then have "effects (snd (compileResume 1 (Inl (ErrorObject [0x65, 0x72, 0x72])) ?s))
      = [StatusChanged ?l1 Compiling, StatusChanged ?l2 Compiling, ClientCompilePdf [0x23],
         Errored ?l1 [0x65, 0x72, 0x72], StatusChanged ?l1 Error, StatusChanged ?l2 Error]"
    by (simp only: es ls) simp
  moreover from h
  have "currentPdfUrl (snd (compileResume 1 (Inl (ErrorObject [0x65, 0x72, 0x72])) ?s))
      = currentPdfUrl ?s"
    by blast
  then have "currentPdfUrl (snd (compileResume 1 (Inl (ErrorObject [0x65, 0x72, 0x72])) ?s))
      = None"
    by (simp only: url)
  ultimately show ?thesis by blast
qed

subsection \<open>One live handle\<close>

lemma replay_append: "replay live (xs @ ys) = replay (replay live xs) ys"
  by (induction xs arbitrary: live) simp_all

lemma atMostOneLive_append:
  "atMostOneLive live (xs @ ys) \<longleftrightarrow>
     atMostOneLive live xs \<and> atMostOneLive (replay live xs) ys"
proof (induction xs arbitrary: live)
  case Nil
  show ?case by (cases ys) auto
next
  case (Cons x xs)
  then show ?case by simp
qed

lemma applyUrl_callback: "receiver e \<noteq> None \<Longrightarrow> applyUrl e live = live"
  by (cases e) simp_all

lemma replay_callbacks: "\<forall>e\<in>set es. receiver e \<noteq> None \<Longrightarrow> replay live es = live"
  by (induction es) (simp_all add: applyUrl_callback)

lemma atMostOneLive_callbacks:
  "\<forall>e\<in>set es. receiver e \<noteq> None \<Longrightarrow> atMostOneLive live es \<longleftrightarrow> length live \<le> 1"
  by (induction es) (auto simp: applyUrl_callback)

lemma handleInv_extend:
  assumes "handleInv s"
      and "effects s' = effects s @ es"
      and "atMostOneLive (liveUrls s) es"
      and "replay (liveUrls s) es = liveUrls s'"
      and "liveUrls s' = (case currentPdfUrl s' of None \<Rightarrow> [] | Some u \<Rightarrow> [u])"
  shows "handleInv s'"
  using assms by (simp add: handleInv_def atMostOneLive_append replay_append)

lemma handleInv_compileBegin: "handleInv s \<Longrightarrow> handleInv (snd (compileBegin code s))"
proof (rule handleInv_extend)
  assume inv: "handleInv s"
  let ?cb = "map (\<lambda>l. StatusChanged l Compiling) (filter onStatusChange (listeners s))"
  let ?es = "?cb @ [ClientCompilePdf code]"
  have cb: "\<forall>e\<in>set ?cb. receiver e \<noteq> None" by auto
  have one: "length (liveUrls s) \<le> 1"
    using inv by (simp add: handleInv_def split: option.splits)
  show "handleInv s" by (rule inv)
  show "effects (snd (compileBegin code s)) = effects s @ ?es"
    by (simp add: compileBegin_fields)
  show "atMostOneLive (liveUrls s) ?es"
    using one by (simp add: atMostOneLive_append replay_callbacks [OF cb]
        atMostOneLive_callbacks [OF cb])
  show "replay (liveUrls s) ?es = liveUrls (snd (compileBegin code s))"
    by (simp add: replay_append replay_callbacks [OF cb] compileBegin_fields)
  show "liveUrls (snd (compileBegin code s)) =
      (case currentPdfUrl (snd (compileBegin code s)) of None \<Rightarrow> [] | Some u \<Rightarrow> [u])"
    using inv by (simp add: handleInv_def compileBegin_fields)
qed

lemma handleInv_failure:
  assumes inv: "handleInv s"
  shows "handleInv (snd (compileResume (compileSeq s) (Inl e) s))"
proof (rule handleInv_extend)
  let ?es = "map (\<lambda>l. Errored l (errorText e)) (filter onError (listeners s))
            @ map (\<lambda>l. StatusChanged l Error) (filter onStatusChange (listeners s))"
  have cb: "\<forall>x\<in>set ?es. receiver x \<noteq> None" by auto
  have one: "length (liveUrls s) \<le> 1"
    using inv by (simp add: handleInv_def split: option.splits)
  show "handleInv s" by (rule inv)
  show "effects (snd (compileResume (compileSeq s) (Inl e) s)) = effects s @ ?es"
    by (simp add: failure_reply)
  show "atMostOneLive (liveUrls s) ?es"
    using one atMostOneLive_callbacks [OF cb] by blast
  show "replay (liveUrls s) ?es = liveUrls (snd (compileResume (compileSeq s) (Inl e) s))"
    using replay_callbacks [OF cb] by (simp add: failure_reply)
  show "liveUrls (snd (compileResume (compileSeq s) (Inl e) s)) =
      (case currentPdfUrl (snd (compileResume (compileSeq s) (Inl e) s)) of
         None \<Rightarrow> [] | Some u \<Rightarrow> [u])"
    using inv by (simp add: handleInv_def failure_reply)
qed

lemma handleInv_success:
  assumes inv: "handleInv s"
  shows "handleInv (snd (compileResume (compileSeq s) (Inr p) s))"
proof (rule handleInv_extend)
  let ?u = "BlobUrl (nextUrl s)"
  let ?pre = "(case currentPdfUrl s of None \<Rightarrow> [] | Some old \<Rightarrow> [RevokeObjectURL old])
     @ [CreateObjectURL p ?u]"
  let ?cb = "map (\<lambda>l. Succeeded l p ?u) (filter onSuccess (listeners s))
     @ map (\<lambda>l. StatusChanged l Done) (filter onStatusChange (listeners s))"
  have cb: "\<forall>x\<in>set ?cb. receiver x \<noteq> None" by auto
  have live: "liveUrls s = (case currentPdfUrl s of None \<Rightarrow> [] | Some u \<Rightarrow> [u])"
    using inv by (simp add: handleInv_def)
  have pre1: "atMostOneLive (liveUrls s) ?pre" and pre2: "replay (liveUrls s) ?pre = [?u]"
    using live by (simp_all split: option.splits)
  show "handleInv s" by (rule inv)
  show "effects (snd (compileResume (compileSeq s) (Inr p) s)) = effects s @ (?pre @ ?cb)"
    by (simp add: success_reply_fields)
  show "atMostOneLive (liveUrls s) (?pre @ ?cb)"
    using pre1 pre2 atMostOneLive_callbacks [OF cb, of "[?u]"]
    by (simp only: atMostOneLive_append) simp
  show "replay (liveUrls s) (?pre @ ?cb) = liveUrls (snd (compileResume (compileSeq s) (Inr p) s))"
    using pre2 replay_callbacks [OF cb, of "[?u]"] live
    by (simp only: replay_append success_reply_fields) (simp split: option.splits)
  show "liveUrls (snd (compileResume (compileSeq s) (Inr p) s)) =
      (case currentPdfUrl (snd (compileResume (compileSeq s) (Inr p) s)) of
         None \<Rightarrow> [] | Some u \<Rightarrow> [u])"
    using live by (simp add: success_reply_fields split: option.splits)
qed

lemma handleInv_compileResume: "handleInv s \<Longrightarrow> handleInv (snd (compileResume seq r s))"
proof (cases "seq = compileSeq s")
  case True
  assume "handleInv s"
  with True show ?thesis
    by (cases r) (simp_all add: handleInv_failure handleInv_success)
next
  case False
  assume "handleInv s"
  with False show ?thesis by (simp add: stale_reply)
qed

lemma handleInv_dispose:
  assumes inv: "handleInv s"
  shows "handleInv (dispose s)"
proof (rule handleInv_extend)
  let ?es = "[ClientDispose]
     @ (case currentPdfUrl s of None \<Rightarrow> [] | Some u \<Rightarrow> [RevokeObjectURL u])"
  have live: "liveUrls s = (case currentPdfUrl s of None \<Rightarrow> [] | Some u \<Rightarrow> [u])"
    using inv by (simp add: handleInv_def)
  show "handleInv s" by (rule inv)
  show "effects (dispose s) = effects s @ ?es" by (simp add: dispose_fields)
  show "atMostOneLive (liveUrls s) ?es" using live by (simp split: option.splits)
  show "replay (liveUrls s) ?es = liveUrls (dispose s)"
    using live by (simp add: dispose_fields split: option.splits)
  show "liveUrls (dispose s) = (case currentPdfUrl (dispose s) of None \<Rightarrow> [] | Some u \<Rightarrow> [u])"
    using live by (simp add: dispose_fields split: option.splits)
qed

lemma handleInv_listeners:
  "handleInv s \<Longrightarrow> handleInv (addListener l s)"
  "handleInv s \<Longrightarrow> handleInv (unsubscribe l s)"
  by (simp_all add: handleInv_def addListener_fields unsubscribe_fields)

lemma handleInv_step: "handleInv s \<Longrightarrow> handleInv (step s ev)"
  by (cases ev)
    (simp_all add: handleInv_compileBegin handleInv_compileResume handleInv_dispose
      handleInv_listeners)

lemma handleInv_run: "handleInv s \<Longrightarrow> handleInv (run evs s)"
  unfolding run_def
  by (induction evs arbitrary: s) (simp_all add: handleInv_step)

lemma handleInv_initial: "handleInv initial"
  by (simp add: handleInv_def initial_def)

text \<open>
  Claim C2. After any execution from a fresh service, at most one object URL was live
  at every point of the log (between any two calls to \<open>URL\<close>), and the live URLs are
  exactly \<open>currentPdfUrl\<close>. A current successful reply revokes the previous URL, if
  there is one, before it creates the new one, installs the new one and only then
  notifies; afterwards the new URL is the only live one. \<open>dispose\<close> revokes the live
  URL, if any, and resets \<open>currentPdfUrl\<close> to null.
\<close>

theorem single_live_handle:
  fixes evs :: "event list" and p :: bytes
  defines "s \<equiv> run evs initial"
  shows "atMostOneLive [] (effects s)
       \<and> replay [] (effects s) = liveUrls s
       \<and> liveUrls s = (case currentPdfUrl s of None \<Rightarrow> [] | Some u \<Rightarrow> [u])
       \<and> effects (snd (compileResume (compileSeq s) (Inr p) s)) = effects s
           @ (case currentPdfUrl s of None \<Rightarrow> [] | Some old \<Rightarrow> [RevokeObjectURL old])
           @ [CreateObjectURL p (BlobUrl (nextUrl s))]
           @ map (\<lambda>l. Succeeded l p (BlobUrl (nextUrl s))) (filter onSuccess (listeners s))
           @ map (\<lambda>l. StatusChanged l Done) (filter onStatusChange (listeners s))
       \<and> currentPdfUrl (snd (compileResume (compileSeq s) (Inr p) s)) = Some (BlobUrl (nextUrl s))
       \<and> liveUrls (snd (compileResume (compileSeq s) (Inr p) s)) = [BlobUrl (nextUrl s)]
       \<and> effects (dispose s) = effects s @ [ClientDispose]
           @ (case currentPdfUrl s of None \<Rightarrow> [] | Some u \<Rightarrow> [RevokeObjectURL u])
       \<and> currentPdfUrl (dispose s) = None
       \<and> liveUrls (dispose s) = []"
proof -
  have inv: "handleInv s"
    unfolding s_def by (rule handleInv_run [OF handleInv_initial])
  then have live: "liveUrls s = (case currentPdfUrl s of None \<Rightarrow> [] | Some u \<Rightarrow> [u])"
    by (simp add: handleInv_def)
  have "liveUrls (snd (compileResume (compileSeq s) (Inr p) s)) = [BlobUrl (nextUrl s)]"
    using live by (simp add: success_reply_fields split: option.splits)
  moreover have "liveUrls (dispose s) = []"
    using live by (simp add: dispose_fields split: option.splits)
  ultimately show ?thesis
    using inv by (simp add: handleInv_def success_reply_fields dispose_fields)
qed

subsection \<open>Unsubscribing\<close>

lemma count_list_remove1: "count_list (remove1 x xs) x = count_list xs x - 1"
  by (induction xs) auto

lemma remove1_last_registration: "count_list xs x \<le> 1 \<Longrightarrow> x \<notin> set (remove1 x xs)"
proof -
  assume "count_list xs x \<le> 1"
  then have "count_list (remove1 x xs) x = 0" by (simp add: count_list_remove1)
  then show ?thesis using count_list_0_iff [of "remove1 x xs" x] by blast
qed

lemma delivered_append: "delivered l (xs @ ys) = delivered l xs @ delivered l ys"
  by (simp add: delivered_def)

lemma delivered_callbacks:
  assumes "l \<notin> set ls"
  shows "delivered l (map (\<lambda>x. StatusChanged x st) (filter P ls)) = []"
    and "delivered l (map (\<lambda>x. Succeeded x p u) (filter P ls)) = []"
    and "delivered l (map (\<lambda>x. Errored x m) (filter P ls)) = []"
  using assms by (auto simp: delivered_def filter_empty_conv)

lemma delivered_other:
  "delivered l [] = []"
  "delivered l (ClientCompilePdf c # es) = delivered l es"
  "delivered l (ClientDispose # es) = delivered l es"
  "delivered l (CreateObjectURL p u # es) = delivered l es"
  "delivered l (RevokeObjectURL u # es) = delivered l es"
  by (simp_all add: delivered_def)

lemma delivered_compileResume:
  assumes out: "l \<notin> set (listeners s)"
  shows "delivered l (effects (snd (compileResume seq r s))) = delivered l (effects s)"
proof (cases "seq = compileSeq s")
  case False
  then show ?thesis by (simp add: stale_reply)
next
  case True
  show ?thesis
  proof (cases r)
    case (Inl e)
    with True show ?thesis
      by (simp add: failure_reply delivered_append delivered_callbacks [OF out])
  next
    case (Inr p)
    with True show ?thesis
      by (simp add: success_reply_fields delivered_append delivered_callbacks [OF out]
          delivered_other split: option.splits)
  qed
qed

lemma listeners_compileResume: "listeners (snd (compileResume seq r s)) = listeners s"
proof (cases "seq = compileSeq s")
  case True
  then show ?thesis by (cases r) (simp_all add: failure_reply success_reply_fields)
next
  case False
  then show ?thesis by (simp add: stale_reply)
qed

lemma unregistered_step:
  assumes out: "l \<notin> set (listeners s)" and ev: "ev \<noteq> AddListener l"
  shows "l \<notin> set (listeners (step s ev))
       \<and> delivered l (effects (step s ev)) = delivered l (effects s)"
proof (cases ev)
  case (Compile code)
  then show ?thesis
    using out by (simp add: compileBegin_fields delivered_append delivered_callbacks [OF out]
        delivered_other)
next
  case (Reply seq r)
  then show ?thesis
    using out by (simp add: delivered_compileResume listeners_compileResume)
next
  case Dispose
  then show ?thesis
    by (simp add: dispose_fields delivered_append delivered_other split: option.splits)
next
  case (AddListener x)
  with ev out show ?thesis by (auto simp: addListener_fields)
next
  case (Unsubscribe x)
  with out show ?thesis
    using notin_set_remove1 [of l "listeners s" x] by (simp add: unsubscribe_fields)
qed

lemma unregistered_run:
  "l \<notin> set (listeners s) \<Longrightarrow> AddListener l \<notin> set evs \<Longrightarrow>
     delivered l (effects (run evs s)) = delivered l (effects s)"
  unfolding run_def
proof (induction evs arbitrary: s)
  case Nil
  show ?case by simp
next
  case (Cons ev evs)
  from Cons.prems have ev: "ev \<noteq> AddListener l" and rest: "AddListener l \<notin> set evs"
    by auto
  note st = unregistered_step [OF Cons.prems(1) ev]
  from Cons.IH [of "step s ev"] st rest show ?case by simp
qed

text \<open>
  Claim C9, as the code has it. The function returned by \<open>addListener\<close> removes one
  registration of its listener, the earliest still in the list, and leaves every other
  listener and the order alone. For a listener registered at most once, calling it again
  changes nothing, and from then on no execution that does not register the listener
  again delivers a callback to it. (A listener registered several times loses one
  registration per call.)
\<close>

theorem unsubscribe_removes_one_registration:
  "unsubscribe l s = s\<lparr> listeners := remove1 l (listeners s) \<rparr>
   \<and> count_list (listeners (unsubscribe l s)) l = count_list (listeners s) l - 1
   \<and> filter (\<lambda>x. x \<noteq> l) (listeners (unsubscribe l s)) = filter (\<lambda>x. x \<noteq> l) (listeners s)
   \<and> (count_list (listeners s) l \<le> 1 \<longrightarrow>
        unsubscribe l (unsubscribe l s) = unsubscribe l s
        \<and> (AddListener l \<notin> set evs \<longrightarrow>
             delivered l (effects (run evs (unsubscribe l s))) = delivered l (effects s)))"
proof -
  have a: "unsubscribe l s = s\<lparr> listeners := remove1 l (listeners s) \<rparr>"
    by (rule unsubscribe_remove1)
  have b: "count_list (listeners (unsubscribe l s)) l = count_list (listeners s) l - 1"
    by (simp add: unsubscribe_fields count_list_remove1)
  have c: "filter (\<lambda>x. x \<noteq> l) (listeners (unsubscribe l s)) = filter (\<lambda>x. x \<noteq> l) (listeners s)"
    by (simp add: unsubscribe_fields filter_remove1)
  have d: "unsubscribe l (unsubscribe l s) = unsubscribe l s
      \<and> (AddListener l \<notin> set evs \<longrightarrow>
           delivered l (effects (run evs (unsubscribe l s))) = delivered l (effects s))"
    if once: "count_list (listeners s) l \<le> 1"
  proof -
    have gone: "l \<notin> set (listeners (unsubscribe l s))"
      using remove1_last_registration [OF once] by (simp add: unsubscribe_fields)
    then have "unsubscribe l (unsubscribe l s) = unsubscribe l s"
      by (simp add: unsubscribe_remove1 [of l "unsubscribe l s"] remove1_idem)
    moreover have "delivered l (effects (run evs (unsubscribe l s))) = delivered l (effects s)"
      if "AddListener l \<notin> set evs"
      using unregistered_run [OF gone that] by (simp add: unsubscribe_fields)
    ultimately show ?thesis by blast
  qed
  from a b c d show ?thesis by blast
qed

text \<open>
  A listener registered once and unsubscribed: the second call is a no-op, and a
  compile with a successful reply delivers nothing to it.
\<close>

theorem unsubscribe_removes_one_registration_witness:
  "count_list (listeners (addListener (CompileListener 7 True True True) initial))
      (CompileListener 7 True True True) \<le> 1
   \<and> AddListener (CompileListener 7 True True True) \<notin> set [Compile [0x61], Reply 1 (Inr [0x25])]
   \<and> unsubscribe (CompileListener 7 True True True)
       (unsubscribe (CompileListener 7 True True True)
          (addListener (CompileListener 7 True True True) initial))
     = unsubscribe (CompileListener 7 True True True)
          (addListener (CompileListener 7 True True True) initial)
   \<and> delivered (CompileListener 7 True True True)
       (effects (run [Compile [0x61], Reply 1 (Inr [0x25])]
          (unsubscribe (CompileListener 7 True True True)
             (addListener (CompileListener 7 True True True) initial)))) = []"
proof -
  let ?l = "CompileListener 7 True True True"
  let ?s = "addListener ?l initial"
  let ?evs = "[Compile [0x61], Reply 1 (Inr [0x25])]"
  have once: "count_list (listeners ?s) ?l \<le> 1"
    by (simp add: addListener_fields initial_def)
  have noadd: "AddListener ?l \<notin> set ?evs" by simp
  have none: "delivered ?l (effects ?s) = []"
    by (simp add: addListener_fields initial_def delivered_def)
  note h = unsubscribe_removes_one_registration [of ?l ?s ?evs]
  from h once have idem: "unsubscribe ?l (unsubscribe ?l ?s) = unsubscribe ?l ?s"
    by blast
  from h once noadd
  have "delivered ?l (effects (run ?evs (unsubscribe ?l ?s))) = delivered ?l (effects ?s)"
    by blast
  with none have quiet: "delivered ?l (effects (run ?evs (unsubscribe ?l ?s))) = []"
    by simp
  from once noadd idem quiet show ?thesis by blast
qed

text \<open>
  The claim as stated fails when the same listener object was registered twice: the
  first call of an unsubscribe function leaves one registration, and calling the same
  function again removes that one too.
\<close>

theorem unsubscribe_twice_counterexample:
  "listeners (unsubscribe (CompileListener 7 True True True)
      (addListener (CompileListener 7 True True True)
        (addListener (CompileListener 7 True True True) initial)))
     = [CompileListener 7 True True True]
   \<and> listeners (unsubscribe (CompileListener 7 True True True)
      (unsubscribe (CompileListener 7 True True True)
        (addListener (CompileListener 7 True True True)
          (addListener (CompileListener 7 True True True) initial))))
     = []"
  by (simp add: unsubscribe_def addListener_def initial_def splice1_def Let_def)

section \<open>Properties of the coalescer\<close>

lemma debounced_invoked: "invoked (debounced args s) = invoked s"
  by (simp add: debounced_def setTimeout_def clearTimeout_def Let_def split: option.splits)

lemma elapse_armed_early:
  assumes "armed d a s" and "g < d"
  shows "elapse g s = s\<lparr> clock := clock s + g \<rparr>"
  using assms
  by (cases "timeoutId s") (simp_all add: armed_def elapse_def Let_def)

lemma elapse_armed_late:
  assumes "armed d a s" and "d \<le> g"
  shows "elapse g s = s\<lparr> clock := clock s + g, timers := [], invoked := [a],
     timeoutId := None \<rparr>"
  using assms
  by (cases "timeoutId s") (simp_all add: armed_def elapse_def Let_def timerCallback_def)

lemma elapse_no_timers:
  "timers s = [] \<Longrightarrow> elapse g s = s\<lparr> clock := clock s + g \<rparr>"
  by (simp add: elapse_def Let_def)

lemma debounced_rearms:
  assumes "armed d a0 s" and "g < d"
  shows "armed d a (debounced a (elapse g s))"
  using assms
  by (cases "timeoutId s")
    (simp_all add: elapse_armed_early [OF assms] armed_def debounced_def setTimeout_def
      clearTimeout_def Let_def)

lemma debounced_arms_fresh: "armed d a (debounced a (elapse g (debounce d)))"
  by (simp add: debounce_def elapse_def debounced_def setTimeout_def armed_def Let_def)

lemma burst_Cons: "burst ((g, a) # cs) s = burst cs (debounced a (elapse g s))"
  by (simp add: burst_def)

lemma burst_keeps_armed:
  "armed d a0 s \<Longrightarrow> \<forall>(g, a)\<in>set cs. g < d \<Longrightarrow>
     armed d (last (a0 # map snd cs)) (burst cs s)"
proof (induction cs arbitrary: s a0)
  case Nil
  then show ?case by (simp add: burst_def)
next
  case (Cons c cs)
  obtain g a where c: "c = (g, a)" by (cases c)
  with Cons.prems have g: "g < d" and rest: "\<forall>(g, a)\<in>set cs. g < d" by auto
  have "armed d a (debounced a (elapse g s))"
    by (rule debounced_rearms [OF Cons.prems(1) g])
  from Cons.IH [OF this rest] c show ?case by (simp add: burst_Cons)
qed

lemma burst_armed:
  assumes ne: "cs \<noteq> []" and close: "\<forall>(g, a)\<in>set (tl cs). g < d"
  shows "armed d (snd (last cs)) (burst cs (debounce d))"
proof -
  from ne obtain g a rest where cs: "cs = (g, a) # rest"
    by (cases cs) auto
  have "armed d (last (a # map snd rest)) (burst rest (debounced a (elapse g (debounce d))))"
    using close cs by (intro burst_keeps_armed debounced_arms_fresh) simp
  moreover have "last (a # map snd rest) = snd (last cs)"
    using cs by (cases rest rule: rev_cases) (simp_all add: last_map)
  ultimately show ?thesis using cs by (simp add: burst_Cons)
qed

lemma cancel_armed:
  "armed d a s \<Longrightarrow> timers (cancel s) = [] \<and> invoked (cancel s) = [] \<and> timeoutId (cancel s) = None"
  by (cases "timeoutId s") (simp_all add: armed_def cancel_def clearTimeout_def)

text \<open>
  Claim C8. On a new debounced function with delay \<open>d\<close>, make one or more calls, each
  less than \<open>d\<close> after the one before. While the calls are made the underlying
  function is not called. Once \<open>d\<close> has passed since the last call it has been called
  exactly once, with the arguments of the last call, and it is not called again however
  much more time passes; no timer of an earlier call ever runs. If \<open>cancel\<close> is called
  after the calls, the underlying function is never called. A call of the debounced
  function, in any state, does not itself call the underlying function.
\<close>

theorem debounce_coalesces:
  fixes cs :: "(nat \<times> 'a) list" and s :: "'a debounce"
  assumes ne: "cs \<noteq> []" and close: "\<forall>(gap, args)\<in>set (tl cs). gap < d"
  shows "invoked (burst cs (debounce d)) = []
       \<and> invoked (elapse t (burst cs (debounce d))) = (if d \<le> t then [snd (last cs)] else [])
       \<and> invoked (elapse t' (elapse t (burst cs (debounce d))))
           = (if d \<le> t + t' then [snd (last cs)] else [])
       \<and> invoked (elapse t' (elapse t (cancel (burst cs (debounce d))))) = []
       \<and> invoked (debounced x s) = invoked s"
proof -
  let ?b = "burst cs (debounce d)"
  have ar: "armed d (snd (last cs)) ?b" by (rule burst_armed [OF ne close])
  then have a: "invoked ?b = []" by (simp add: armed_def)
  have b: "invoked (elapse t ?b) = (if d \<le> t then [snd (last cs)] else [])"
  proof (cases "d \<le> t")
    case True
    then show ?thesis by (simp add: elapse_armed_late [OF ar True])
  next
    case False
    then have "t < d" by simp
    from elapse_armed_early [OF ar this] a False show ?thesis by simp
  qed
  have c: "invoked (elapse t' (elapse t ?b)) = (if d \<le> t + t' then [snd (last cs)] else [])"
  proof (cases "d \<le> t")
    case True
    then show ?thesis
      by (simp add: elapse_armed_late [OF ar True] elapse_no_timers)
  next
    case False
    then have early: "t < d" by simp
    show ?thesis
    proof (cases "d \<le> t + t'")
      case True
      from ar early True show ?thesis
        by (cases "timeoutId ?b")
          (simp_all add: elapse_armed_early [OF ar early] armed_def elapse_def Let_def
            timerCallback_def)
    next
      case False
      from ar early False show ?thesis
        by (cases "timeoutId ?b")
          (simp_all add: elapse_armed_early [OF ar early] armed_def elapse_def Let_def
            timerCallback_def)
    qed
  qed
  have d: "invoked (elapse t' (elapse t (cancel ?b))) = []"
    using cancel_armed [OF ar] by (simp add: elapse_no_timers)
  have e: "invoked (debounced x s) = invoked s" by (rule debounced_invoked)
  from a b c d e show ?thesis by blast
qed

text \<open>
  Three keystrokes within a second of each other, with the editor's delay of 1000 ms:
  one call, for the last text.
\<close>

theorem debounce_coalesces_witness:
  "[(5, ''a''), (999, ''ab''), (0, ''abc'')] \<noteq> []
   \<and> list_all (\<lambda>(gap, args). gap < 1000) (tl [(5::nat, ''a''), (999, ''ab''), (0, ''abc'')])
   \<and> invoked (burst [(5, ''a''), (999, ''ab''), (0, ''abc'')] (debounce 1000)) = []
   \<and> invoked (elapse 1000 (burst [(5, ''a''), (999, ''ab''), (0, ''abc'')] (debounce 1000)))
       = [''abc'']
   \<and> invoked (elapse 5000 (elapse 999 (cancel
        (burst [(5, ''a''), (999, ''ab''), (0, ''abc'')] (debounce 1000))))) = []"
proof -
  let ?cs = "[(5::nat, ''a''), (999, ''ab''), (0, ''abc'')]"
  have ne: "?cs \<noteq> []" by simp
  have close: "\<forall>(gap, args)\<in>set (tl ?cs). gap < 1000" by simp
  have shown: "list_all (\<lambda>(gap, args). gap < 1000) (tl ?cs)" by simp
  have quiet: "invoked (burst ?cs (debounce 1000)) = []"
    using debounce_coalesces [OF ne close] by blast
  have once: "invoked (elapse 1000 (burst ?cs (debounce 1000))) = [''abc'']"
    using debounce_coalesces [OF ne close, where t = 1000] by simp
  have cancelled: "invoked (elapse 5000 (elapse 999 (cancel (burst ?cs (debounce 1000))))) = []"
    using debounce_coalesces [OF ne close, where t = 999 and t' = 5000] by blast
  from ne shown quiet once cancelled show ?thesis by blast
qed

section \<open>Properties of the render worker\<close>

subsection \<open>What a starting unit does\<close>

lemma fonts_differ [simp]:
  "EMOJI_FONTS \<noteq> []"
  "CORE_FONTS @ EMOJI_FONTS \<noteq> CORE_FONTS" "CORE_FONTS \<noteq> CORE_FONTS @ EMOJI_FONTS"
  by (simp_all add: EMOJI_FONTS_def)

lemma beginUnit_upgrade:
  assumes "needsEmojiFont (mainTypst req)" and "\<not> emojiLoaded w"
  shows "beginUnit req w = w\<lparr> emojiLoaded := True,
      trace := trace w @ [Start (msgId req), Construct (CORE_FONTS @ EMOJI_FONTS)],
      running := Some (req, AwaitUpgrade (TypstCompiler (CORE_FONTS @ EMOJI_FONTS))) \<rparr>"
  using assms
  by (simp add: beginUnit_def upgradeCompilerWithEmoji_def createCompilerWithFonts_def
      getCurrentFonts_def record_action_def Let_def)

lemma beginUnit_compiler:
  assumes "needsEmojiFont (mainTypst req) \<longrightarrow> emojiLoaded w"
  shows "beginUnit req w =
     (case compilerPromise w of
        None \<Rightarrow> w\<lparr> compilerPromise := Some (Promise (TypstCompiler CORE_FONTS) Pending),
            trace := trace w @ [Start (msgId req), Construct CORE_FONTS],
            running := Some (req, AwaitCompiler) \<rparr>
      | Some p \<Rightarrow>
          (case outcome p of
             Pending \<Rightarrow> w\<lparr> trace := trace w @ [Start (msgId req)],
                 running := Some (req, AwaitCompiler) \<rparr>
           | Fulfilled \<Rightarrow> w\<lparr> trace := trace w @ [Start (msgId req),
                   Render (msgId req) (promised p) (mainTypst req) (shadows req)],
                 running := Some (req, AwaitCompile) \<rparr>
           | Rejected e \<Rightarrow> w\<lparr> trace := trace w @ [Start (msgId req),
                   Post (response req (Inl e))],
                 running := None \<rparr>))"
  using assms
  by (simp add: beginUnit_def upgradeCompilerWithEmoji_def createCompilerWithFonts_def
      awaitCompiler_def getCompiler_def render_def finish_def
      record_action_def Let_def split: option.splits settled.splits)


lemma beginUnit_cases [case_names upgrade construct wait render reject]:
  obtains
    (upgrade) "needsEmojiFont (mainTypst req)" and "\<not> emojiLoaded w"
      and "beginUnit req w = w\<lparr> emojiLoaded := True,
        trace := trace w @ [Start (msgId req), Construct (CORE_FONTS @ EMOJI_FONTS)],
        running := Some (req, AwaitUpgrade (TypstCompiler (CORE_FONTS @ EMOJI_FONTS))) \<rparr>"
  | (construct) "compilerPromise w = None"
      and "beginUnit req w =
        w\<lparr> compilerPromise := Some (Promise (TypstCompiler CORE_FONTS) Pending),
          trace := trace w @ [Start (msgId req), Construct CORE_FONTS],
          running := Some (req, AwaitCompiler) \<rparr>"
  | (wait) p where "compilerPromise w = Some p" and "outcome p = Pending"
      and "beginUnit req w = w\<lparr> trace := trace w @ [Start (msgId req)],
          running := Some (req, AwaitCompiler) \<rparr>"
  | (render) p where "compilerPromise w = Some p" and "outcome p = Fulfilled"
      and "beginUnit req w = w\<lparr> trace := trace w @ [Start (msgId req),
            Render (msgId req) (promised p) (mainTypst req) (shadows req)],
          running := Some (req, AwaitCompile) \<rparr>"
  | (reject) p e where "compilerPromise w = Some p" and "outcome p = Rejected e"
      and "beginUnit req w = w\<lparr> trace := trace w @ [Start (msgId req),
            Post (response req (Inl e))],
          running := None \<rparr>"
proof (cases "needsEmojiFont (mainTypst req) \<and> \<not> emojiLoaded w")
  case True
  then show ?thesis using upgrade beginUnit_upgrade [of req w] by blast
next
  case False
  then have ok: "needsEmojiFont (mainTypst req) \<longrightarrow> emojiLoaded w" by blast
  note eq = beginUnit_compiler [OF ok]
  show ?thesis
  proof (cases "compilerPromise w")
    case None
    with eq construct show ?thesis by simp
  next
    case (Some p)
    show ?thesis
    proof (cases "outcome p")
      case Pending
      with Some eq wait show ?thesis by simp
    next
      case Fulfilled
      with Some eq render show ?thesis by simp
    next
      case (Rejected e)
      with Some eq reject show ?thesis by simp
    qed
  qed
qed

lemma awaitCompiler_fulfilled:
  "awaitCompiler req (upgraded c w) = render req c (upgraded c w)"
  by (simp add: awaitCompiler_def getCompiler_def upgraded_def)

lemma handle_cases [case_names ignore message upgraded upgradeFailed built buildFailed rendered]:
  obtains
    (ignore) "handle w sig = w"
  | (message) m where "sig = Message (Some m)" and "msgType m = ''compile''"
      and "handle w sig = proceed (w\<lparr> compileQueue := compileQueue w @ [m] \<rparr>)"
  | (upgraded) req c where "sig = Built None" and "running w = Some (req, AwaitUpgrade c)"
      and "handle w sig = proceed (render req c (upgraded c w))"
  | (upgradeFailed) req c e where "sig = Built (Some e)"
      and "running w = Some (req, AwaitUpgrade c)"
      and "handle w sig = proceed (finish req (Inl e) w)"
  | (built) req c where "sig = Built None" and "running w = Some (req, AwaitCompiler)"
      and "compilerPromise w = Some (Promise c Pending)"
      and "handle w sig =
        proceed (render req c (w\<lparr> compilerPromise := Some (Promise c Fulfilled) \<rparr>))"
  | (buildFailed) req c e where "sig = Built (Some e)"
      and "running w = Some (req, AwaitCompiler)"
      and "compilerPromise w = Some (Promise c Pending)"
      and "handle w sig =
        proceed (finish req (Inl e) (w\<lparr> compilerPromise := Some (Promise c (Rejected e)) \<rparr>))"
  | (rendered) req r where "sig = Rendered r" and "running w = Some (req, AwaitCompile)"
      and "handle w sig =
        proceed (finish req (case r of Inl e \<Rightarrow> Inl e | Inr v \<Rightarrow> compilePdfResult v) w)"
proof (cases sig)
  case (Message mo)
  show ?thesis
  proof (cases mo)
    case None
    with Message ignore show ?thesis by (simp add: onmessage_def)
  next
    case (Some m)
    with Message ignore message show ?thesis
      by (cases "msgType m = ''compile''") (simp_all add: onmessage_def)
  qed
next
  case (Built b)
  show ?thesis
  proof (cases "running w")
    case None
    with Built ignore show ?thesis by simp
  next
    case (Some u)
    obtain req st where u: "u = (req, st)" by (cases u)
    show ?thesis
    proof (cases st)
      case (AwaitUpgrade c)
      with Built Some u upgraded upgradeFailed show ?thesis
        by (cases b) (simp_all add: awaitCompiler_fulfilled)
    next
      case AwaitCompiler
      show ?thesis
      proof (cases "compilerPromise w")
        case None
        with Built Some u AwaitCompiler ignore show ?thesis by simp
      next
        case (Some p)
        obtain c oc where p: "p = Promise c oc" by (cases p)
        show ?thesis
        proof (cases oc)
          case Pending
          with Built \<open>running w = Some u\<close> u AwaitCompiler Some p built buildFailed
          show ?thesis by (cases b) simp_all
        next
          case Fulfilled
          with Built \<open>running w = Some u\<close> u AwaitCompiler Some p ignore
          show ?thesis by simp
        next
          case (Rejected e)
          with Built \<open>running w = Some u\<close> u AwaitCompiler Some p ignore
          show ?thesis by simp
        qed
      qed
    next
      case AwaitCompile
      with Built Some u ignore show ?thesis by simp
    qed
  qed
next
  case (Rendered r)
  show ?thesis
  proof (cases "running w")
    case None
    with Rendered ignore show ?thesis by simp
  next
    case (Some u)
    obtain req st where u: "u = (req, st)" by (cases u)
    with Rendered Some ignore rendered show ?thesis
      by (cases st) simp_all
  qed
qed


subsection \<open>An induction rule for what holds along every execution\<close>

lemma startQueued_invariant:
  assumes queue: "\<And>w q. I (w\<lparr> compileQueue := q \<rparr>) = I w"
      and start: "\<And>w req. I w \<Longrightarrow> running w = None \<Longrightarrow> I (beginUnit req w)"
  shows "I w \<Longrightarrow> running w = None \<Longrightarrow> I (startQueued q w)"
proof (induction q arbitrary: w)
  case Nil
  then show ?case by (simp add: queue)
next
  case (Cons req rest)
  have b: "I (beginUnit req w)" by (rule start [OF Cons.prems])
  show ?case
  proof (cases "running (beginUnit req w)")
    case None
    with Cons.IH [OF b] show ?thesis by simp
  next
    case (Some u)
    with b show ?thesis by (simp add: queue)
  qed
qed

lemma proceed_invariant:
  assumes queue: "\<And>w q. I (w\<lparr> compileQueue := q \<rparr>) = I w"
      and start: "\<And>w req. I w \<Longrightarrow> running w = None \<Longrightarrow> I (beginUnit req w)"
      and "I w"
  shows "I (proceed w)"
  using assms(3) startQueued_invariant [of I, OF queue start]
  by (cases "running w") (simp_all add: proceed_def)

lemma handle_invariant:
  assumes queue: "\<And>w q. I (w\<lparr> compileQueue := q \<rparr>) = I w"
      and start: "\<And>w req. I w \<Longrightarrow> running w = None \<Longrightarrow> I (beginUnit req w)"
      and pUp: "\<And>w req c. I w \<Longrightarrow> running w = Some (req, AwaitUpgrade c) \<Longrightarrow>
                 I (render req c (upgraded c w))"
      and pUpFailed: "\<And>w req c e. I w \<Longrightarrow> running w = Some (req, AwaitUpgrade c) \<Longrightarrow>
                 I (finish req (Inl e) w)"
      and pBuilt: "\<And>w req c. I w \<Longrightarrow> running w = Some (req, AwaitCompiler) \<Longrightarrow>
                 compilerPromise w = Some (Promise c Pending) \<Longrightarrow>
                 I (render req c (w\<lparr> compilerPromise := Some (Promise c Fulfilled) \<rparr>))"
      and pBuildFailed: "\<And>w req c e. I w \<Longrightarrow> running w = Some (req, AwaitCompiler) \<Longrightarrow>
                 compilerPromise w = Some (Promise c Pending) \<Longrightarrow>
                 I (finish req (Inl e) (w\<lparr> compilerPromise := Some (Promise c (Rejected e)) \<rparr>))"
      and pRendered: "\<And>w req r. I w \<Longrightarrow> running w = Some (req, AwaitCompile) \<Longrightarrow>
                 I (finish req r w)"
      and inv: "I w"
  shows "I (handle w sig)"
proof (cases rule: handle_cases [of w sig])
  case ignore
  with inv show ?thesis by simp
next
  case (message m)
  have "I (w\<lparr> compileQueue := compileQueue w @ [m] \<rparr>)" using inv by (simp add: queue)
  with message show ?thesis by (simp add: proceed_invariant [of I, OF queue start])
next
  case (upgraded req c)
  with pUp [OF inv] show ?thesis by (simp add: proceed_invariant [of I, OF queue start])
next
  case (upgradeFailed req c e)
  with pUpFailed [OF inv] show ?thesis by (simp add: proceed_invariant [of I, OF queue start])
next
  case (built req c)
  with pBuilt [OF inv] show ?thesis by (simp add: proceed_invariant [of I, OF queue start])
next
  case (buildFailed req c e)
  with pBuildFailed [OF inv] show ?thesis
    by (simp add: proceed_invariant [of I, OF queue start])
next
  case (rendered req r)
  with pRendered [OF inv] show ?thesis by (simp add: proceed_invariant [of I, OF queue start])
qed

lemma execute_snoc: "execute (sigs @ [sig]) w = handle (execute sigs w) sig"
  by (simp add: execute_def)

lemma execute_append: "execute (xs @ ys) w = execute ys (execute xs w)"
  by (simp add: execute_def)

lemma execute_invariant:
  assumes step: "\<And>w sig. I w \<Longrightarrow> I (handle w sig)"
  shows "I w \<Longrightarrow> I (execute sigs w)"
  unfolding execute_def
  by (induction sigs arbitrary: w) (simp_all add: step)

subsection \<open>Units do not overlap\<close>

lemma serialEnd_append:
  "serialEnd cur (xs @ ys) = (case serialEnd cur xs of None \<Rightarrow> None | Some c \<Rightarrow> serialEnd c ys)"
  by (induction cur xs rule: serialEnd.induct) simp_all

lemma serialInv_handle:
  assumes "serialInv w"
  shows "serialInv (handle w sig)"
proof (rule handle_invariant [where I = serialInv, OF _ _ _ _ _ _ _ assms])
  show "serialInv (w\<lparr> compileQueue := q \<rparr>) = serialInv w" for w q
    by (simp add: serialInv_def)
  show "serialInv (beginUnit req w)" if "serialInv w" "running w = None" for w req
    using that
    by (cases rule: beginUnit_cases [of req w])
      (simp_all add: serialInv_def serialEnd_append response_def)
  show "serialInv (render req c (upgraded c w))"
    if "serialInv w" "running w = Some (req, AwaitUpgrade c)" for w req c
    using that
    by (simp add: serialInv_def serialEnd_append render_def upgraded_def record_action_def)
  show "serialInv (finish req (Inl e) w)"
    if "serialInv w" "running w = Some (req, AwaitUpgrade c)" for w req c e
    using that
    by (simp add: serialInv_def serialEnd_append finish_def record_action_def response_def)
  show "serialInv (render req c (w\<lparr> compilerPromise := Some (Promise c Fulfilled) \<rparr>))"
    if "serialInv w" "running w = Some (req, AwaitCompiler)" for w req c
    using that
    by (simp add: serialInv_def serialEnd_append render_def record_action_def)
  show "serialInv (finish req (Inl e) (w\<lparr> compilerPromise := Some (Promise c (Rejected e)) \<rparr>))"
    if "serialInv w" "running w = Some (req, AwaitCompiler)" for w req c e
    using that
    by (simp add: serialInv_def serialEnd_append finish_def record_action_def response_def)
  show "serialInv (finish req r w)"
    if "serialInv w" "running w = Some (req, AwaitCompile)" for w req r
    using that
    by (cases r)
      (simp_all add: serialInv_def serialEnd_append finish_def record_action_def
        response_def split_beta)
qed


subsection \<open>The memoized promise and the two constructions\<close>

lemma shapeInv_handle:
  assumes "shapeInv w"
  shows "shapeInv (handle w sig)"
proof (rule handle_invariant [where I = shapeInv, OF _ _ _ _ _ _ _ assms])
  show "shapeInv (w\<lparr> compileQueue := q \<rparr>) = shapeInv w" for w q
    by (simp add: shapeInv_def cong: option.case_cong prod.case_cong stage.case_cong)
  show "shapeInv (beginUnit req w)" if "shapeInv w" "running w = None" for w req
    using that
    by (cases rule: beginUnit_cases [of req w])
      (auto simp: shapeInv_def split: option.splits)
  show "shapeInv (render req c (upgraded c w))"
    if "shapeInv w" "running w = Some (req, AwaitUpgrade c)" for w req c
    using that
    by (simp add: shapeInv_def render_def upgraded_def record_action_def)
  show "shapeInv (finish req (Inl e) w)"
    if "shapeInv w" "running w = Some (req, AwaitUpgrade c)" for w req c e
    using that
    by (auto simp: shapeInv_def finish_def record_action_def split: option.splits)
  show "shapeInv (render req c (w\<lparr> compilerPromise := Some (Promise c Fulfilled) \<rparr>))"
    if "shapeInv w" "running w = Some (req, AwaitCompiler)"
      "compilerPromise w = Some (Promise c Pending)" for w req c
    using that
    by (simp add: shapeInv_def render_def record_action_def)
  show "shapeInv (finish req (Inl e) (w\<lparr> compilerPromise := Some (Promise c (Rejected e)) \<rparr>))"
    if "shapeInv w" "running w = Some (req, AwaitCompiler)"
      "compilerPromise w = Some (Promise c Pending)" for w req c e
    using that
    by (simp add: shapeInv_def finish_def record_action_def)
  show "shapeInv (finish req r w)"
    if "shapeInv w" "running w = Some (req, AwaitCompile)" for w req r
    using that
    by (auto simp: shapeInv_def finish_def record_action_def split: option.splits)
qed

lemma countInv_handle:
  assumes "countInv w"
  shows "countInv (handle w sig)"
proof (rule handle_invariant [where I = countInv, OF _ _ _ _ _ _ _ assms])
  show "countInv (w\<lparr> compileQueue := q \<rparr>) = countInv w" for w q
    by (simp add: countInv_def)
  show "countInv (beginUnit req w)" if "countInv w" "running w = None" for w req
    using that
    by (cases rule: beginUnit_cases [of req w]) (auto simp: countInv_def)
  show "countInv (render req c (upgraded c w))"
    if "countInv w" "running w = Some (req, AwaitUpgrade c)" for w req c
    using that
    by (simp add: countInv_def render_def upgraded_def record_action_def)
  show "countInv (finish req (Inl e) w)"
    if "countInv w" "running w = Some (req, AwaitUpgrade c)" for w req c e
    using that
    by (simp add: countInv_def finish_def record_action_def)
  show "countInv (render req c (w\<lparr> compilerPromise := Some (Promise c Fulfilled) \<rparr>))"
    if "countInv w" "running w = Some (req, AwaitCompiler)"
      "compilerPromise w = Some (Promise c Pending)" for w req c
    using that
    by (simp add: countInv_def render_def record_action_def)
  show "countInv (finish req (Inl e) (w\<lparr> compilerPromise := Some (Promise c (Rejected e)) \<rparr>))"
    if "countInv w" "running w = Some (req, AwaitCompiler)"
      "compilerPromise w = Some (Promise c Pending)" for w req c e
    using that
    by (simp add: countInv_def finish_def record_action_def)
  show "countInv (finish req r w)"
    if "countInv w" "running w = Some (req, AwaitCompile)" for w req r
    using that
    by (simp add: countInv_def finish_def record_action_def)
qed


lemma rendererState_cong:
  "compilerPromise v = compilerPromise w \<Longrightarrow> rendererState v = rendererState w"
  by (simp add: rendererState_def)

lemma rendererState_finish [simp]: "rendererState (finish req r w) = rendererState w"
  by (rule rendererState_cong) (simp add: finish_def record_action_def)

lemma rendererState_render [simp]: "rendererState (render req c w) = rendererState w"
  by (rule rendererState_cong) (simp add: render_def record_action_def)





subsection \<open>Once settled on a compiler\<close>

lemma onlyUses_append: "onlyUses c (xs @ ys) \<longleftrightarrow> onlyUses c xs \<and> onlyUses c ys"
  by (induction c xs rule: onlyUses.induct) simp_all

lemma continues_length: "take (length t) xs = t \<Longrightarrow> length t \<le> length xs"
proof -
  assume "take (length t) xs = t"
  then have "length (take (length t) xs) = length t" by simp
  then show ?thesis by simp
qed

lemma since_handle:
  assumes "since t c w"
  shows "since t c (handle w sig)"
proof (rule handle_invariant [where I = "since t c", OF _ _ _ _ _ _ _ assms])
  show "since t c (w\<lparr> compileQueue := q \<rparr>) = since t c w" for w q
    by (simp add: since_def settledOn_def)
  show "since t c (beginUnit req w)" if "since t c w" "running w = None" for w req
    using that
    by (cases rule: beginUnit_cases [of req w])
      (auto simp: since_def settledOn_def onlyUses_append dest: continues_length)
  show "since t c (render req c' (upgraded c' w))"
    if "since t c w" "running w = Some (req, AwaitUpgrade c')" for w req c'
    using that by (simp add: since_def settledOn_def)
  show "since t c (finish req (Inl e) w)"
    if "since t c w" "running w = Some (req, AwaitUpgrade c')" for w req c' e
    using that by (simp add: since_def settledOn_def)
  show "since t c (render req c' (w\<lparr> compilerPromise := Some (Promise c' Fulfilled) \<rparr>))"
    if "since t c w" "running w = Some (req, AwaitCompiler)" for w req c'
    using that by (simp add: since_def settledOn_def)
  show "since t c (finish req (Inl e) (w\<lparr> compilerPromise := Some (Promise c' (Rejected e)) \<rparr>))"
    if "since t c w" "running w = Some (req, AwaitCompiler)" for w req c' e
    using that by (simp add: since_def settledOn_def)
  show "since t c (finish req r w)"
    if "since t c w" "running w = Some (req, AwaitCompile)" for w req r
    using that
    by (auto simp: since_def settledOn_def finish_def record_action_def onlyUses_append
        dest: continues_length)
qed

lemma since_execute: "since t c w \<Longrightarrow> since t c (execute sigs w)"
  by (rule execute_invariant [where I = "since t c"]) (rule since_handle)



subsection \<open>Replies in arrival order\<close>

lemma posts_append: "posts (xs @ ys) = posts xs @ posts ys"
  by (induction xs rule: posts.induct) simp_all

lemma ledger_startQueued:
  "running w = None \<Longrightarrow>
     ledger (startQueued q w) = map respId (posts (trace w)) @ map msgId q"
proof (induction q arbitrary: w)
  case Nil
  then show ?case by (simp add: ledger_def outstanding_def)
next
  case (Cons req rest)
  show ?case
  proof (cases rule: beginUnit_cases [of req w])
    case upgrade
    then show ?thesis by (simp add: ledger_def outstanding_def posts_append)
  next
    case construct
    then show ?thesis by (simp add: ledger_def outstanding_def posts_append)
  next
    case (wait p)
    then show ?thesis by (simp add: ledger_def outstanding_def posts_append)
  next
    case (render p)
    then show ?thesis by (simp add: ledger_def outstanding_def posts_append)
  next
    case (reject p e)
    then have "running (beginUnit req w) = None" by simp
    from Cons.IH [OF this] reject show ?thesis
      by (simp add: posts_append response_def)
  qed
qed

lemma ledger_proceed: "ledger (proceed w) = ledger w"
proof (cases "running w")
  case None
  then show ?thesis
    by (simp add: proceed_def ledger_startQueued) (simp add: ledger_def outstanding_def)
next
  case (Some u)
  then show ?thesis by (simp add: proceed_def)
qed

lemma ledger_finish:
  "running w = Some (req, st) \<Longrightarrow> ledger (finish req r w) = ledger w"
  by (cases r)
    (simp_all add: ledger_def outstanding_def finish_def record_action_def posts_append
      response_def split_beta)

lemma ledger_render:
  "running w = Some (req, st) \<Longrightarrow> ledger (render req c w) = ledger w"
  by (simp add: ledger_def outstanding_def render_def record_action_def posts_append)

lemma ledger_cong:
  "trace v = trace w \<Longrightarrow> running v = running w \<Longrightarrow> compileQueue v = compileQueue w \<Longrightarrow>
     ledger v = ledger w"
  by (simp add: ledger_def outstanding_def)

lemma ledger_handle: "ledger (handle w sig) = ledger w @ map msgId (accepted [sig])"
proof (cases rule: handle_cases [of w sig])
  case ignore
  show ?thesis
  proof (cases sig)
    case (Message mo)
    show ?thesis
    proof (cases mo)
      case None
      with Message show ?thesis by (simp add: onmessage_def)
    next
      case (Some m)
      show ?thesis
      proof (cases "msgType m = ''compile''")
        case True
        with Message Some
        have "handle w sig = proceed (w\<lparr> compileQueue := compileQueue w @ [m] \<rparr>)"
          by (simp add: onmessage_def)
        with Message Some True show ?thesis
          by (simp add: ledger_proceed) (simp add: ledger_def outstanding_def)
      next
        case False
        with Message Some show ?thesis by (simp add: onmessage_def)
      qed
    qed
  next
    case (Built b)
    with ignore show ?thesis by simp
  next
    case (Rendered r)
    with ignore show ?thesis by simp
  qed
next
  case (message m)
  then show ?thesis
    by (simp add: ledger_proceed) (simp add: ledger_def outstanding_def)
next
  case (upgraded req c)
  have "ledger (upgraded c w) = ledger w"
    by (rule ledger_cong) (simp_all add: upgraded_def)
  moreover have "running (upgraded c w) = Some (req, AwaitUpgrade c)"
    using upgraded by (simp add: upgraded_def)
  ultimately show ?thesis
    using upgraded by (simp add: ledger_proceed ledger_render)
next
  case (upgradeFailed req c e)
  then show ?thesis by (simp add: ledger_proceed ledger_finish)
next
  case (built req c)
  let ?v = "w\<lparr> compilerPromise := Some (Promise c Fulfilled) \<rparr>"
  have "ledger ?v = ledger w" by (rule ledger_cong) simp_all
  moreover have "running ?v = Some (req, AwaitCompiler)" using built by simp
  ultimately show ?thesis
    using built by (simp add: ledger_proceed ledger_render)
next
  case (buildFailed req c e)
  let ?v = "w\<lparr> compilerPromise := Some (Promise c (Rejected e)) \<rparr>"
  have "ledger ?v = ledger w" by (rule ledger_cong) simp_all
  moreover have "running ?v = Some (req, AwaitCompiler)" using buildFailed by simp
  ultimately show ?thesis
    using buildFailed by (simp add: ledger_proceed ledger_finish)
next
  case (rendered req r)
  then show ?thesis by (simp add: ledger_proceed ledger_finish)
qed

lemma accepted_append: "accepted (xs @ ys) = accepted xs @ accepted ys"
  by (induction xs rule: accepted.induct) simp_all

lemma ledger_execute:
  "ledger (execute sigs w) = ledger w @ map msgId (accepted sigs)"
proof (induction sigs rule: rev_induct)
  case Nil
  show ?case by (simp add: execute_def)
next
  case (snoc sig sigs)
  then show ?case by (simp add: execute_snoc ledger_handle accepted_append)
qed

subsection \<open>The queue moves on after a failure\<close>

lemma trace_beginUnit:
  "\<exists>more. trace (beginUnit req w) = trace w @ Start (msgId req) # more"
  by (cases rule: beginUnit_cases [of req w]) simp_all

lemma trace_startQueued: "\<exists>more. trace (startQueued q w) = trace w @ more"
proof (induction q arbitrary: w)
  case Nil
  show ?case by simp
next
  case (Cons req rest)
  obtain m1 where m1: "trace (beginUnit req w) = trace w @ Start (msgId req) # m1"
    using trace_beginUnit by blast
  show ?case
  proof (cases "running (beginUnit req w)")
    case None
    obtain m2 where "trace (startQueued rest (beginUnit req w)) = trace (beginUnit req w) @ m2"
      using Cons [of "beginUnit req w"] by blast
    with None m1 show ?thesis by simp
  next
    case (Some u)
    with m1 show ?thesis by simp
  qed
qed

lemma trace_startQueued_Cons:
  "\<exists>more. trace (startQueued (req # rest) w) = trace w @ Start (msgId req) # more"
proof -
  obtain m1 where m1: "trace (beginUnit req w) = trace w @ Start (msgId req) # m1"
    using trace_beginUnit by blast
  show ?thesis
  proof (cases "running (beginUnit req w)")
    case None
    obtain m2 where "trace (startQueued rest (beginUnit req w)) = trace (beginUnit req w) @ m2"
      using trace_startQueued by blast
    with None m1 show ?thesis by simp
  next
    case (Some u)
    with m1 show ?thesis by simp
  qed
qed

lemma trace_proceed: "\<exists>more. trace (proceed w) = trace w @ more"
  using trace_startQueued [of "compileQueue w" w]
  by (cases "running w") (simp_all add: proceed_def)

lemma finish_then_next:
  assumes "compileQueue w = nxt # rest"
  shows "\<exists>more. trace (proceed (finish req r w))
           = trace w @ [Post (response req r), Start (msgId nxt)] @ more"
proof -
  let ?v = "finish req r w"
  have v: "running ?v = None" "compileQueue ?v = nxt # rest"
    "trace ?v = trace w @ [Post (response req r)]"
    using assms by (simp_all add: finish_def record_action_def)
  obtain more where "trace (startQueued (nxt # rest) ?v) = trace ?v @ Start (msgId nxt) # more"
    using trace_startQueued_Cons by blast
  with v show ?thesis by (simp add: proceed_def)
qed

lemma finish_alone:
  "\<exists>more. trace (proceed (finish req r w)) = trace w @ Post (response req r) # more"
proof -
  obtain more where "trace (proceed (finish req r w)) = trace (finish req r w) @ more"
    using trace_proceed by blast
  then show ?thesis by (simp add: finish_def record_action_def)
qed

subsection \<open>Every request is answered\<close>

lemma idleInv_startQueued: "running w = None \<Longrightarrow> idleInv (startQueued q w)"
proof (induction q arbitrary: w)
  case Nil
  show ?case by (simp add: idleInv_def)
next
  case (Cons req rest)
  show ?case
  proof (cases "running (beginUnit req w)")
    case None
    with Cons.IH [OF None] show ?thesis by simp
  next
    case (Some u)
    then show ?thesis by (simp add: idleInv_def)
  qed
qed

lemma idleInv_proceed: "idleInv (proceed w)"
proof (cases "running w")
  case None
  then show ?thesis by (simp add: proceed_def idleInv_startQueued)
next
  case (Some u)
  then show ?thesis by (simp add: proceed_def idleInv_def)
qed

lemma idleInv_handle: "idleInv w \<Longrightarrow> idleInv (handle w sig)"
  by (cases rule: handle_cases [of w sig]) (simp_all add: idleInv_proceed)

lemma outstanding_startQueued:
  "running w = None \<Longrightarrow> length (outstanding (startQueued q w)) \<le> length q"
proof (induction q arbitrary: w)
  case Nil
  then show ?case by (simp add: outstanding_def)
next
  case (Cons req rest)
  show ?case
  proof (cases "running (beginUnit req w)")
    case None
    with Cons.IH [OF None] show ?thesis by simp
  next
    case (Some u)
    then show ?thesis by (simp add: outstanding_def split_beta)
  qed
qed

lemma outstanding_finish:
  assumes "running w = Some (req, st)"
  shows "length (outstanding (proceed (finish req r w))) < length (outstanding w)"
proof -
  let ?v = "finish req r w"
  have v: "running ?v = None" "compileQueue ?v = compileQueue w"
    by (simp_all add: finish_def record_action_def)
  then have "length (outstanding (proceed ?v)) \<le> length (compileQueue w)"
    using outstanding_startQueued [of ?v "compileQueue w"] by (simp add: proceed_def)
  with assms show ?thesis by (simp add: outstanding_def)
qed

lemma round_finishes_unit:
  assumes shape: "shapeInv w" and busy: "running w = Some (req, st)"
  shows "length (outstanding (handle (handle w (Built None)) (Rendered r)))
       < length (outstanding w)"
proof -
  have "\<exists>v. handle w (Built None) = v \<and> running v = Some (req, AwaitCompile)
      \<and> compileQueue v = compileQueue w"
  proof (cases st)
    case (AwaitUpgrade c)
    with busy show ?thesis
      by (simp add: awaitCompiler_def getCompiler_def upgraded_def proceed_def render_def
          record_action_def)
  next
    case AwaitCompiler
    with shape busy obtain p where p: "compilerPromise w = Some p" "outcome p = Pending"
      by (auto simp: shapeInv_def split: option.splits)
    then have "compilerPromise w = Some (Promise (promised p) Pending)"
      by (cases p) simp
    with busy AwaitCompiler show ?thesis
      by (simp add: proceed_def render_def record_action_def)
  next
    case AwaitCompile
    with busy show ?thesis by simp
  qed
  then obtain v where v: "handle w (Built None) = v" "running v = Some (req, AwaitCompile)"
    "compileQueue v = compileQueue w" by blast
  have "length (outstanding (handle v (Rendered r))) < length (outstanding v)"
    using v(2) outstanding_finish [OF v(2)] by simp
  moreover have "length (outstanding v) = length (outstanding w)"
    using v busy by (simp add: outstanding_def)
  ultimately show ?thesis using v(1) by simp
qed

lemma round_idle:
  assumes "running w = None"
  shows "handle (handle w (Built None)) (Rendered r) = w"
  using assms by simp

lemma rounds_Suc: "execute (rounds (Suc n) r) w
     = execute (rounds n r) (handle (handle w (Built None)) (Rendered r))"
  by (simp add: rounds_def execute_def)

lemma rounds_drain:
  "shapeInv w \<Longrightarrow> idleInv w \<Longrightarrow> length (outstanding w) \<le> n \<Longrightarrow>
     outstanding (execute (rounds n r) w) = []"
proof (induction n arbitrary: w)
  case 0
  then show ?case by (simp add: rounds_def execute_def)
next
  case (Suc n)
  let ?v = "handle (handle w (Built None)) (Rendered r)"
  have shape: "shapeInv ?v" by (intro shapeInv_handle Suc.prems(1))
  have idle: "idleInv ?v" by (intro idleInv_handle Suc.prems(2))
  have "length (outstanding ?v) \<le> n"
  proof (cases "running w")
    case None
    with Suc.prems(2) have "outstanding w = []" by (simp add: idleInv_def outstanding_def)
    with None show ?thesis by simp
  next
    case (Some u)
    obtain req st where "u = (req, st)" by (cases u)
    with Some round_finishes_unit [OF Suc.prems(1), of req st r] Suc.prems(3)
    show ?thesis by simp
  qed
  from Suc.IH [OF shape idle this] show ?case by (simp only: rounds_Suc)
qed

lemma accepted_rounds: "accepted (rounds n r) = []"
  by (induction n) (simp_all add: rounds_def)

subsection \<open>Every execution of a fresh worker\<close>

lemma fresh_invariants:
  "serialInv freshWorker" "shapeInv freshWorker" "countInv freshWorker" "idleInv freshWorker"
  "ledger freshWorker = []"
  by (simp_all add: freshWorker_def serialInv_def shapeInv_def countInv_def idleInv_def
      ledger_def outstanding_def)

lemma reachable_invariants:
  "serialInv (execute sigs freshWorker)"
  "shapeInv (execute sigs freshWorker)"
  "countInv (execute sigs freshWorker)"
  "idleInv (execute sigs freshWorker)"
  "ledger (execute sigs freshWorker) = map msgId (accepted sigs)"
proof -
  show "serialInv (execute sigs freshWorker)"
    by (rule execute_invariant [where I = serialInv])
      (simp_all add: serialInv_handle fresh_invariants)
  show "shapeInv (execute sigs freshWorker)"
    by (rule execute_invariant [where I = shapeInv])
      (simp_all add: shapeInv_handle fresh_invariants)
  show "countInv (execute sigs freshWorker)"
    by (rule execute_invariant [where I = countInv])
      (simp_all add: countInv_handle fresh_invariants)
  show "idleInv (execute sigs freshWorker)"
    by (rule execute_invariant [where I = idleInv])
      (simp_all add: idleInv_handle fresh_invariants)
  show "ledger (execute sigs freshWorker) = map msgId (accepted sigs)"
    by (simp add: ledger_execute fresh_invariants)
qed

lemma serialInv_serial: "serialInv w \<Longrightarrow> serial (trace w)"
  by (simp add: serialInv_def serial_def)

text \<open>The definitions that evaluate a concrete execution.\<close>

lemmas worker_eval =
  execute_def onmessage_def proceed_def beginUnit_def upgradeCompilerWithEmoji_def
  upgraded_def awaitCompiler_def getCompiler_def createCompilerWithFonts_def
  getCurrentFonts_def render_def finish_def record_action_def needsEmojiFont_def
  freshWorker_def response_def compilePdfResult_def shadows_def rendererState_def
  noDiagnostics_def rounds_def outstanding_def Let_def

subsection \<open>Serial service\<close>

text \<open>
  Claim C4. Take any sequence of messages and settlements a new worker receives.
  Its trace is serial: a unit starts only when none is executing, and the executing
  unit's renderer calls and constructions come before its reply, which ends it. The
  replies posted so far, followed by the unit executing and the units queued, are the
  compile requests received, in arrival order; so replies come in submission order and
  no request is dropped or answered twice. When the renderer reports a failure for the
  executing unit and another request waits, the failure reply is posted and the next
  unit starts at once. And whatever \<open>compile\<close> settles with (a failure every time,
  for instance), once it has settled for every unfinished unit every request received
  has its reply, in arrival order.
\<close>

theorem worker_serves_in_order:
  fixes sigs :: "signal list" and n :: nat and r :: "thrown + RenderResult"
  defines "w \<equiv> execute sigs freshWorker"
  defines "w' \<equiv> execute (sigs @ rounds n r) freshWorker"
  shows "serial (trace w)
       \<and> map respId (posts (trace w)) @ map msgId (outstanding w) = map msgId (accepted sigs)
       \<and> (running w = Some (req, AwaitCompile) \<and> compileQueue w = nxt # rest
            \<and> result res = None \<longrightarrow>
          ok (response req (compilePdfResult res)) = False
          \<and> (\<exists>more. trace (handle w (Rendered (Inr res)))
                = trace w @ [Post (response req (compilePdfResult res)), Start (msgId nxt)]
                  @ more))
       \<and> (length (outstanding w) \<le> n \<longrightarrow>
            outstanding w' = []
            \<and> map respId (posts (trace w')) = map msgId (accepted sigs)
            \<and> serial (trace w'))"
proof -
  have a: "serial (trace w)"
    unfolding w_def by (rule serialInv_serial [OF reachable_invariants(1)])
  have b: "map respId (posts (trace w)) @ map msgId (outstanding w) = map msgId (accepted sigs)"
    using reachable_invariants(5) [of sigs] by (simp add: ledger_def w_def)
  have c: "ok (response req (compilePdfResult res)) = False
      \<and> (\<exists>more. trace (handle w (Rendered (Inr res)))
            = trace w @ [Post (response req (compilePdfResult res)), Start (msgId nxt)] @ more)"
    if run: "running w = Some (req, AwaitCompile)" and q: "compileQueue w = nxt # rest"
      and bad: "result res = None"
  proof -
    have "ok (response req (compilePdfResult res)) = False"
      using bad by (simp add: compilePdfResult_def response_def Let_def)
    moreover have "handle w (Rendered (Inr res))
        = proceed (finish req (compilePdfResult res) w)"
      using run by simp
    ultimately show ?thesis
      using finish_then_next [OF q, of req "compilePdfResult res"] by simp
  qed
  have d: "outstanding w' = []
      \<and> map respId (posts (trace w')) = map msgId (accepted sigs) \<and> serial (trace w')"
    if few: "length (outstanding w) \<le> n"
  proof -
    have w': "w' = execute (rounds n r) w"
      by (simp add: w'_def w_def execute_append)
    have drained: "outstanding w' = []"
      unfolding w' w_def
      by (rule rounds_drain [OF reachable_invariants(2) reachable_invariants(4)])
        (use few in \<open>simp add: w_def\<close>)
    have "ledger w' = map msgId (accepted sigs)"
      using reachable_invariants(5) [of "sigs @ rounds n r"]
      by (simp add: w'_def accepted_append accepted_rounds)
    with drained have "map respId (posts (trace w')) = map msgId (accepted sigs)"
      by (simp add: ledger_def)
    moreover have "serial (trace w')"
      unfolding w'_def by (rule serialInv_serial [OF reachable_invariants(1)])
    ultimately show ?thesis using drained by blast
  qed
  from a b c d show ?thesis by blast
qed

text \<open>
  Two requests, the second sent while the first is being compiled, and a renderer that
  fails on both: the first failure starts the second unit, and both are answered in
  order.
\<close>

theorem worker_serves_in_order_witness:
  "running (execute
      [Message (Some \<lparr> msgType = ''compile'', msgId = ''1'', mainTypst = [0x3D], images = None \<rparr>),
       Message (Some \<lparr> msgType = ''compile'', msgId = ''2'', mainTypst = [0x3D], images = None \<rparr>),
       Built None] freshWorker)
     = Some (\<lparr> msgType = ''compile'', msgId = ''1'', mainTypst = [0x3D], images = None \<rparr>,
             AwaitCompile)
   \<and> compileQueue (execute
      [Message (Some \<lparr> msgType = ''compile'', msgId = ''1'', mainTypst = [0x3D], images = None \<rparr>),
       Message (Some \<lparr> msgType = ''compile'', msgId = ''2'', mainTypst = [0x3D], images = None \<rparr>),
       Built None] freshWorker)
     = [\<lparr> msgType = ''compile'', msgId = ''2'', mainTypst = [0x3D], images = None \<rparr>]
   \<and> result \<lparr> result = None, renderDiagnostics = Some [[0x65]] \<rparr> = None
   \<and> length (outstanding (execute
      [Message (Some \<lparr> msgType = ''compile'', msgId = ''1'', mainTypst = [0x3D], images = None \<rparr>),
       Message (Some \<lparr> msgType = ''compile'', msgId = ''2'', mainTypst = [0x3D], images = None \<rparr>),
       Built None] freshWorker)) \<le> 2
   \<and> map respId (posts (trace (execute
      ([Message (Some \<lparr> msgType = ''compile'', msgId = ''1'', mainTypst = [0x3D], images = None \<rparr>),
        Message (Some \<lparr> msgType = ''compile'', msgId = ''2'', mainTypst = [0x3D], images = None \<rparr>),
        Built None]
       @ rounds 2 (Inr \<lparr> result = None, renderDiagnostics = Some [[0x65]] \<rparr>)) freshWorker)))
     = [''1'', ''2'']
   \<and> (\<exists>more. trace (handle (execute
      [Message (Some \<lparr> msgType = ''compile'', msgId = ''1'', mainTypst = [0x3D], images = None \<rparr>),
       Message (Some \<lparr> msgType = ''compile'', msgId = ''2'', mainTypst = [0x3D], images = None \<rparr>),
       Built None] freshWorker)
         (Rendered (Inr \<lparr> result = None, renderDiagnostics = Some [[0x65]] \<rparr>)))
     = trace (execute
      [Message (Some \<lparr> msgType = ''compile'', msgId = ''1'', mainTypst = [0x3D], images = None \<rparr>),
       Message (Some \<lparr> msgType = ''compile'', msgId = ''2'', mainTypst = [0x3D], images = None \<rparr>),
       Built None] freshWorker)
       @ [Post \<lparr> respId = ''1'', ok = False, respPdf = None, respError = Some [0x65],
            diagnostics = [] \<rparr>, Start ''2''] @ more)"
proof -
  let ?r1 = "\<lparr> msgType = ''compile'', msgId = ''1'', mainTypst = [0x3D], images = None \<rparr>"
  let ?r2 = "\<lparr> msgType = ''compile'', msgId = ''2'', mainTypst = [0x3D], images = None \<rparr>"
  let ?bad = "\<lparr> result = None, renderDiagnostics = Some [[0x65::16 word]] \<rparr>"
  let ?sigs = "[Message (Some ?r1), Message (Some ?r2), Built None]"
  let ?w = "execute ?sigs freshWorker"
  have run: "running ?w = Some (?r1, AwaitCompile)" by (simp add: worker_eval)
  have q: "compileQueue ?w = [?r2]" by (simp add: worker_eval)
  have bad: "result ?bad = None" by simp
  have few: "length (outstanding ?w) \<le> 2" by (simp add: worker_eval)
  have acc: "map msgId (accepted ?sigs) = [''1'', ''2'']" by simp
  have resp: "response ?r1 (compilePdfResult ?bad)
      = \<lparr> respId = ''1'', ok = False, respPdf = None, respError = Some [0x65],
          diagnostics = [] \<rparr>"
    by (simp add: response_def compilePdfResult_def)
  note h = worker_serves_in_order [of ?sigs ?r1 ?r2 "[]" ?bad 2 "Inr ?bad"]
  from h run q bad have "\<exists>more. trace (handle ?w (Rendered (Inr ?bad)))
      = trace ?w @ [Post (response ?r1 (compilePdfResult ?bad)), Start (msgId ?r2)] @ more"
    by blast
  with resp have next_starts: "\<exists>more. trace (handle ?w (Rendered (Inr ?bad)))
      = trace ?w @ [Post \<lparr> respId = ''1'', ok = False, respPdf = None, respError = Some [0x65],
          diagnostics = [] \<rparr>, Start ''2''] @ more"
    by simp
  from h few have "map respId (posts (trace (execute (?sigs @ rounds 2 (Inr ?bad)) freshWorker)))
      = map msgId (accepted ?sigs)"
    by blast
  with acc have all: "map respId (posts (trace (execute (?sigs @ rounds 2 (Inr ?bad)) freshWorker)))
      = [''1'', ''2'']"
    by simp
  from run q bad few all next_starts show ?thesis by blast
qed

subsection \<open>The reply to a render failure\<close>

text \<open>
  Claim C6, as the code has it. When the renderer resolves without a result for the
  executing unit, the reply posted for the request has \<open>ok: false\<close>, no \<open>pdf\<close>, an
  empty \<open>diagnostics\<close> array, and as \<open>error\<close> the renderer's diagnostics joined with
  newlines, or the fixed message when that text is empty. It is the first thing the
  worker does then.
\<close>

theorem render_failure_reply:
  fixes res :: RenderResult
  defines "ds \<equiv> (case renderDiagnostics res of None \<Rightarrow> [] | Some xs \<Rightarrow> xs)"
  defines "message \<equiv> (if join [0x0A] ds = [] then noDiagnostics else join [0x0A] ds)"
  assumes bad: "result res = None" and run: "running w = Some (req, AwaitCompile)"
  shows "response req (compilePdfResult res)
           = \<lparr> respId = msgId req, ok = False, respPdf = None, respError = Some message,
               diagnostics = [] \<rparr>
       \<and> (\<exists>more. trace (handle w (Rendered (Inr res)))
             = trace w @ Post \<lparr> respId = msgId req, ok = False, respPdf = None,
                 respError = Some message, diagnostics = [] \<rparr> # more)"
proof -
  have resp: "response req (compilePdfResult res)
      = \<lparr> respId = msgId req, ok = False, respPdf = None, respError = Some message,
          diagnostics = [] \<rparr>"
    using bad by (simp add: compilePdfResult_def response_def Let_def ds_def message_def)
  have "handle w (Rendered (Inr res)) = proceed (finish req (compilePdfResult res) w)"
    using run by simp
  with finish_alone [of req "compilePdfResult res" w] resp show ?thesis by simp
qed

text \<open>A request whose source the renderer rejects with two diagnostics.\<close>

theorem render_failure_reply_witness:
  "result \<lparr> result = None, renderDiagnostics = Some [[0x65, 0x31], [0x65, 0x32]] \<rparr> = None
   \<and> running (execute
        [Message (Some \<lparr> msgType = ''compile'', msgId = ''7'', mainTypst = [0x2A],
           images = None \<rparr>), Built None] freshWorker)
      = Some (\<lparr> msgType = ''compile'', msgId = ''7'', mainTypst = [0x2A], images = None \<rparr>,
              AwaitCompile)
   \<and> response \<lparr> msgType = ''compile'', msgId = ''7'', mainTypst = [0x2A], images = None \<rparr>
        (compilePdfResult
           \<lparr> result = None, renderDiagnostics = Some [[0x65, 0x31], [0x65, 0x32]] \<rparr>)
      = \<lparr> respId = ''7'', ok = False, respPdf = None,
          respError = Some [0x65, 0x31, 0x0A, 0x65, 0x32], diagnostics = [] \<rparr>"
proof -
  let ?req = "\<lparr> msgType = ''compile'', msgId = ''7'', mainTypst = [0x2A], images = None \<rparr>"
  let ?res = "\<lparr> result = None, renderDiagnostics = Some [[0x65, 0x31], [0x65, 0x32 :: 16 word]] \<rparr>"
  let ?w = "execute [Message (Some ?req), Built None] freshWorker"
  have bad: "result ?res = None" by simp
  have run: "running ?w = Some (?req, AwaitCompile)" by (simp add: worker_eval)
  from render_failure_reply [OF bad run]
  have "response ?req (compilePdfResult ?res)
      = \<lparr> respId = ''7'', ok = False, respPdf = None,
          respError = Some [0x65, 0x31, 0x0A, 0x65, 0x32], diagnostics = [] \<rparr>"
    by simp
  with bad run show ?thesis by blast
qed

text \<open>
  The claim as stated fails twice. With two diagnostics from the renderer, the reply's
  \<open>diagnostics\<close> is empty: the handler's \<open>catch\<close> block writes \<open>diagnostics: []\<close>.
  With no diagnostics, the message is not the (empty) joined text but the fixed
  message.
\<close>

theorem render_failure_reply_counterexample:
  "diagnostics (response
      \<lparr> msgType = ''compile'', msgId = ''7'', mainTypst = [0x2A], images = None \<rparr>
      (compilePdfResult
         \<lparr> result = None, renderDiagnostics = Some [[0x65, 0x31], [0x65, 0x32]] \<rparr>)) = []
   \<and> posts (trace (execute
        [Message (Some \<lparr> msgType = ''compile'', msgId = ''7'', mainTypst = [0x2A],
           images = None \<rparr>), Built None,
         Rendered (Inr \<lparr> result = None, renderDiagnostics = Some [[0x65, 0x31], [0x65, 0x32]] \<rparr>)]
        freshWorker))
      = [\<lparr> respId = ''7'', ok = False, respPdf = None,
           respError = Some [0x65, 0x31, 0x0A, 0x65, 0x32], diagnostics = [] \<rparr>]
   \<and> respError (response
      \<lparr> msgType = ''compile'', msgId = ''7'', mainTypst = [0x2A], images = None \<rparr>
      (compilePdfResult \<lparr> result = None, renderDiagnostics = Some [] \<rparr>))
      = Some noDiagnostics
   \<and> join [0x0A] [] \<noteq> noDiagnostics"
  by (simp add: worker_eval)

subsection \<open>A failed upgrade\<close>

lemma since_proceed: "since t c w \<Longrightarrow> since t c (proceed w)"
proof (rule proceed_invariant [where I = "since t c"])
  show "since t c (w\<lparr> compileQueue := q \<rparr>) = since t c w" for w q
    by (simp add: since_def settledOn_def)
  show "since t c (beginUnit req w)" if "since t c w" "running w = None" for w req
    using that
    by (cases rule: beginUnit_cases [of req w])
      (auto simp: since_def settledOn_def onlyUses_append dest: continues_length)
qed

text \<open>
  Claim C10. A unit waits for the construction \<open>upgradeCompilerWithEmoji\<close> started
  (so \<open>emojiLoaded\<close> is already set), a compiler \<open>c\<close> was built before and is the
  memoized one, and the construction fails. Then the request gets a failure reply with
  the error, \<open>emojiLoaded\<close> stays set and the memoized compiler stays \<open>c\<close>, now and
  after any further signals; from then on the worker constructs no compiler again and
  every renderer call, for whatever source, is made on \<open>c\<close>.
\<close>

theorem failed_upgrade_is_never_retried:
  fixes w :: worker and sigs :: "signal list" and e :: thrown
  defines "w1 \<equiv> handle w (Built (Some e))"
  defines "w2 \<equiv> execute sigs w1"
  assumes upgrading: "running w = Some (req, AwaitUpgrade c')"
      and base: "compilerPromise w = Some (Promise c Fulfilled)"
      and flag: "emojiLoaded w"
  shows "emojiLoaded w1 \<and> compilerPromise w1 = Some (Promise c Fulfilled)
       \<and> emojiLoaded w2 \<and> compilerPromise w2 = Some (Promise c Fulfilled)
       \<and> (\<exists>more. trace w2 = trace w @ Post (response req (Inl e)) # more \<and> onlyUses c more)"
proof -
  let ?v = "finish req (Inl e) w"
  let ?t = "trace w @ [Post (response req (Inl e))]"
  have w1: "w1 = proceed ?v" using upgrading by (simp add: w1_def)
  have "since ?t c ?v"
    using base flag by (simp add: since_def settledOn_def finish_def record_action_def)
  then have "since ?t c w1" unfolding w1 by (rule since_proceed)
  then have s2: "since ?t c w2" unfolding w2_def by (rule since_execute)
  from \<open>since ?t c w1\<close> have a: "emojiLoaded w1 \<and> compilerPromise w1 = Some (Promise c Fulfilled)"
    by (simp add: since_def settledOn_def)
  from s2 have b: "emojiLoaded w2 \<and> compilerPromise w2 = Some (Promise c Fulfilled)"
    by (simp add: since_def settledOn_def)
  from s2 have tk: "take (length ?t) (trace w2) = ?t"
    and only: "onlyUses c (drop (length ?t) (trace w2))"
    by (simp_all add: since_def)
  have "trace w2 = take (length ?t) (trace w2) @ drop (length ?t) (trace w2)" by simp
  with tk have "trace w2 = trace w @ Post (response req (Inl e)) # drop (length ?t) (trace w2)"
    by simp
  with only have c: "\<exists>more. trace w2 = trace w @ Post (response req (Inl e)) # more
      \<and> onlyUses c more"
    by blast
  from a b c show ?thesis by blast
qed

text \<open>
  A first request builds the base compiler; the second contains U+2603 and starts the
  upgrade, whose construction fails; a third request with the same character is then
  rendered on the base compiler, and no construction is tried again.
\<close>

theorem failed_upgrade_is_never_retried_witness:
  "running (execute
      [Message (Some \<lparr> msgType = ''compile'', msgId = ''1'', mainTypst = [0x3D], images = None \<rparr>),
       Built None,
       Rendered (Inr \<lparr> result = Some [0x25], renderDiagnostics = None \<rparr>),
       Message (Some \<lparr> msgType = ''compile'', msgId = ''2'', mainTypst = [0x2603],
         images = None \<rparr>)] freshWorker)
     = Some (\<lparr> msgType = ''compile'', msgId = ''2'', mainTypst = [0x2603], images = None \<rparr>,
             AwaitUpgrade (TypstCompiler (CORE_FONTS @ EMOJI_FONTS)))
   \<and> emojiLoaded (execute
      [Message (Some \<lparr> msgType = ''compile'', msgId = ''1'', mainTypst = [0x3D], images = None \<rparr>),
       Built None,
       Rendered (Inr \<lparr> result = Some [0x25], renderDiagnostics = None \<rparr>),
       Message (Some \<lparr> msgType = ''compile'', msgId = ''2'', mainTypst = [0x2603],
         images = None \<rparr>)] freshWorker)
   \<and> compilerPromise (execute
      [Message (Some \<lparr> msgType = ''compile'', msgId = ''1'', mainTypst = [0x3D], images = None \<rparr>),
       Built None,
       Rendered (Inr \<lparr> result = Some [0x25], renderDiagnostics = None \<rparr>),
       Message (Some \<lparr> msgType = ''compile'', msgId = ''2'', mainTypst = [0x2603],
         images = None \<rparr>)] freshWorker)
     = Some (Promise (TypstCompiler CORE_FONTS) Fulfilled)
   \<and> compilerPromise (execute
      [Message (Some \<lparr> msgType = ''compile'', msgId = ''3'', mainTypst = [0x2603],
         images = None \<rparr>)]
      (handle (execute
        [Message (Some \<lparr> msgType = ''compile'', msgId = ''1'', mainTypst = [0x3D],
           images = None \<rparr>),
         Built None,
         Rendered (Inr \<lparr> result = Some [0x25], renderDiagnostics = None \<rparr>),
         Message (Some \<lparr> msgType = ''compile'', msgId = ''2'', mainTypst = [0x2603],
           images = None \<rparr>)] freshWorker)
        (Built (Some (ErrorObject [0x78])))))
     = Some (Promise (TypstCompiler CORE_FONTS) Fulfilled)
   \<and> trace (execute
      [Message (Some \<lparr> msgType = ''compile'', msgId = ''3'', mainTypst = [0x2603],
         images = None \<rparr>)]
      (handle (execute
        [Message (Some \<lparr> msgType = ''compile'', msgId = ''1'', mainTypst = [0x3D],
           images = None \<rparr>),
         Built None,
         Rendered (Inr \<lparr> result = Some [0x25], renderDiagnostics = None \<rparr>),
         Message (Some \<lparr> msgType = ''compile'', msgId = ''2'', mainTypst = [0x2603],
           images = None \<rparr>)] freshWorker)
        (Built (Some (ErrorObject [0x78])))))
     = [Start ''1'', Construct CORE_FONTS, Render ''1'' (TypstCompiler CORE_FONTS) [0x3D] [],
        Post \<lparr> respId = ''1'', ok = True, respPdf = Some [0x25], respError = None,
          diagnostics = [] \<rparr>,
        Start ''2'', Construct (CORE_FONTS @ EMOJI_FONTS),
        Post \<lparr> respId = ''2'', ok = False, respPdf = None, respError = Some [0x78],
          diagnostics = [] \<rparr>,
        Start ''3'', Render ''3'' (TypstCompiler CORE_FONTS) [0x2603] []]"
proof -
  let ?r1 = "\<lparr> msgType = ''compile'', msgId = ''1'', mainTypst = [0x3D], images = None \<rparr>"
  let ?r2 = "\<lparr> msgType = ''compile'', msgId = ''2'', mainTypst = [0x2603], images = None \<rparr>"
  let ?r3 = "\<lparr> msgType = ''compile'', msgId = ''3'', mainTypst = [0x2603], images = None \<rparr>"
  let ?ok = "\<lparr> result = Some [0x25 :: 8 word], renderDiagnostics = None \<rparr>"
  let ?w = "execute [Message (Some ?r1), Built None, Rendered (Inr ?ok), Message (Some ?r2)]
      freshWorker"
  let ?w2 = "execute [Message (Some ?r3)] (handle ?w (Built (Some (ErrorObject [0x78]))))"
  have upgrading: "running ?w = Some (?r2, AwaitUpgrade (TypstCompiler (CORE_FONTS @ EMOJI_FONTS)))"
    by (simp add: worker_eval)
  have base: "compilerPromise ?w = Some (Promise (TypstCompiler CORE_FONTS) Fulfilled)"
    by (simp add: worker_eval)
  have flag: "emojiLoaded ?w" by (simp add: worker_eval)
  have kept: "compilerPromise ?w2 = Some (Promise (TypstCompiler CORE_FONTS) Fulfilled)"
    using failed_upgrade_is_never_retried [OF upgrading base flag] by blast
  have tr: "trace ?w2
     = [Start ''1'', Construct CORE_FONTS, Render ''1'' (TypstCompiler CORE_FONTS) [0x3D] [],
        Post \<lparr> respId = ''1'', ok = True, respPdf = Some [0x25], respError = None,
          diagnostics = [] \<rparr>,
        Start ''2'', Construct (CORE_FONTS @ EMOJI_FONTS),
        Post \<lparr> respId = ''2'', ok = False, respPdf = None, respError = Some [0x78],
          diagnostics = [] \<rparr>,
        Start ''3'', Render ''3'' (TypstCompiler CORE_FONTS) [0x2603] []]"
    by (simp add: worker_eval)
  from upgrading flag base kept tr show ?thesis by blast
qed

subsection \<open>The renderer state\<close>













end
